theory Spec2Isabelle
  imports Complex_Main "HOL-Library.Word" "HOL-Library.Multiset"
begin

section \<open>Grids\<close>

text \<open>
  A grid is the JavaScript array of nine arrays of nine numbers; \<open>0\<close> is an empty cell.
  \<open>g ! r ! c\<close> is \<open>grid[r][c]\<close>. Reads are only meaningful inside a well-formed
  grid, so every statement below carries \<open>wfGrid\<close> and the coordinate bounds.
\<close>

type_synonym grid = "nat list list"

definition wfGrid :: "grid \<Rightarrow> bool" where
  "wfGrid g = (length g = 9 \<and> list_all (\<lambda>row. length row = 9) g)"

definition setCell :: "grid \<Rightarrow> nat \<Rightarrow> nat \<Rightarrow> nat \<Rightarrow> grid" where
  \<comment> \<open>\<open>grid[row][col] = v\<close>\<close>
  "setCell g row col v = g[row := (g ! row)[col := v]]"

definition emptyGrid :: grid where
  \<comment> \<open>\<open>Array(9).fill(null).map(() => Array(9).fill(0))\<close>\<close>
  "emptyGrid = replicate 9 (replicate 9 0)"

definition cells :: "(nat \<times> nat) list" where
  \<comment> \<open>the coordinates in the order of the nested \<open>for row / for col\<close> loops\<close>
  "cells = concat (map (\<lambda>row. map (\<lambda>col. (row, col)) [0..<9]) [0..<9])"

section \<open>Constraint validation\<close>

definition isCellConflicting :: "grid \<Rightarrow> nat \<Rightarrow> nat \<Rightarrow> bool" where
  "isCellConflicting g row col =
     (let val = g ! row ! col in
      if val = 0 then False
      else if list_ex (\<lambda>i. (i \<noteq> col \<and> g ! row ! i = val) \<or> (i \<noteq> row \<and> g ! i ! col = val)) [0..<9]
      then True
      else
        let boxRow = (row div 3) * 3; boxCol = (col div 3) * 3 in
        list_ex (\<lambda>r. list_ex (\<lambda>c. (r \<noteq> row \<or> c \<noteq> col) \<and> g ! r ! c = val)
                   [boxCol..<boxCol + 3]) [boxRow..<boxRow + 3])"

definition isValid :: "grid \<Rightarrow> nat \<Rightarrow> nat \<Rightarrow> nat \<Rightarrow> bool" where
  "isValid g row col num =
     (if list_ex (\<lambda>i. g ! row ! i = num) [0..<9] then False
      else if list_ex (\<lambda>i. g ! i ! col = num) [0..<9] then False
      else
        let boxRow = (row div 3) * 3; boxCol = (col div 3) * 3 in
        \<not> list_ex (\<lambda>i. list_ex (\<lambda>j. g ! i ! j = num) [boxCol..<boxCol + 3])
             [boxRow..<boxRow + 3])"

fun scanSeen :: "nat set \<Rightarrow> nat list \<Rightarrow> bool" where
  \<comment> \<open>one pass of \<open>if (seen.has(num)) return false; seen.add(num)\<close>\<close>
  "scanSeen seen [] = True"
| "scanSeen seen (num # rest) = (if num \<in> seen then False else scanSeen (insert num seen) rest)"

definition rowOf :: "grid \<Rightarrow> nat \<Rightarrow> nat list" where
  "rowOf g row = map (\<lambda>col. g ! row ! col) [0..<9]"

definition colOf :: "grid \<Rightarrow> nat \<Rightarrow> nat list" where
  "colOf g col = map (\<lambda>row. g ! row ! col) [0..<9]"

definition boxOf :: "grid \<Rightarrow> nat \<Rightarrow> nat \<Rightarrow> nat list" where
  \<comment> \<open>the box whose top left corner is \<open>(boxRow, boxCol)\<close>, in the loops' order\<close>
  "boxOf g boxRow boxCol =
     concat (map (\<lambda>i. map (\<lambda>j. g ! i ! j) [boxCol..<boxCol + 3]) [boxRow..<boxRow + 3])"

definition isSolutionValid :: "grid \<Rightarrow> bool" where
  "isSolutionValid g =
     (list_all (\<lambda>row. scanSeen {} (rowOf g row)) [0..<9] \<and>
      list_all (\<lambda>col. scanSeen {} (colOf g col)) [0..<9] \<and>
      list_all (\<lambda>boxRow. list_all (\<lambda>boxCol. scanSeen {} (boxOf g boxRow boxCol)) [0, 3, 6])
        [0, 3, 6])"

text \<open>The vocabulary of the specification.\<close>

definition sameUnit :: "nat \<Rightarrow> nat \<Rightarrow> nat \<Rightarrow> nat \<Rightarrow> bool" where
  \<comment> \<open>same row, same column, or same box (box index \<open>(row div 3, col div 3)\<close>)\<close>
  "sameUnit row col r c = (r = row \<or> c = col \<or> (r div 3 = row div 3 \<and> c div 3 = col div 3))"

definition perm19 :: "nat list \<Rightarrow> bool" where
  \<comment> \<open>a permutation of 1..9: sorting gives exactly \<open>[1, ..., 9]\<close>\<close>
  "perm19 xs = (sort xs = [1..<10])"

definition hasZero :: "grid \<Rightarrow> bool" where
  "hasZero g = list_ex (\<lambda>(row, col). g ! row ! col = 0) cells"

definition solved :: "grid \<Rightarrow> bool" where
  "solved g =
     (wfGrid g \<and> \<not> hasZero g \<and>
      list_all (\<lambda>row. perm19 (rowOf g row)) [0..<9] \<and>
      list_all (\<lambda>col. perm19 (colOf g col)) [0..<9] \<and>
      list_all (\<lambda>boxRow. list_all (\<lambda>boxCol. perm19 (boxOf g boxRow boxCol)) [0, 3, 6]) [0, 3, 6])"

definition noClash :: "grid \<Rightarrow> bool" where
  \<comment> \<open>no two different cells of one row, column or box hold the same value\<close>
  "noClash g = (\<forall>r<9. \<forall>c<9. \<forall>r'<9. \<forall>c'<9.
      (r \<noteq> r' \<or> c \<noteq> c') \<and> sameUnit r c r' c' \<longrightarrow> g ! r ! c \<noteq> g ! r' ! c')"

definition exampleSolution :: grid where
  "exampleSolution =
    [[1,2,3,4,5,6,7,8,9],
     [4,5,6,7,8,9,1,2,3],
     [7,8,9,1,2,3,4,5,6],
     [2,3,4,5,6,7,8,9,1],
     [5,6,7,8,9,1,2,3,4],
     [8,9,1,2,3,4,5,6,7],
     [3,4,5,6,7,8,9,1,2],
     [6,7,8,9,1,2,3,4,5],
     [9,1,2,3,4,5,6,7,8]]"

section \<open>The game state\<close>

record game =
  grid :: grid
  solution :: grid
  originalGrid :: grid
  difficulty :: string
  hintsUsed :: nat
  isGameComplete :: bool

definition checkGameCompletion :: "game \<Rightarrow> game" where
  \<comment> \<open>stopping the timer and showing the modal are display effects and leave the state alone\<close>
  "checkGameCompletion gm =
     (if isGameComplete gm then gm
      else if hasZero (grid gm) then gm
      else if isSolutionValid (grid gm) then gm\<lparr>isGameComplete := True\<rparr>
      else gm)"

section \<open>The random source\<close>

text \<open>
  \<open>this.random()\<close> (\<open>Math.random\<close> or the seeded generator) returns a number in
  \<open>[0, 1)\<close>; the type \<open>draw\<close> holds exactly these. A source is the sequence of the
  values its successive calls return, and the number of calls made so far is threaded
  through the operations. \<open>randInt u n\<close> is \<open>Math.floor(u * n)\<close>, the product taken
  in the reals: the double product may round across an integer, but for \<open>n \<le> 81\<close> it
  stays below \<open>n\<close> as well, and nothing below depends on which index a draw selects.
\<close>

typedef draw = "{x::real. 0 \<le> x \<and> x < 1}"
  by (rule exI [of _ 0]) simp

type_synonym rng = "nat \<Rightarrow> draw"

definition randInt :: "draw \<Rightarrow> nat \<Rightarrow> nat" where
  "randInt u n = nat \<lfloor>Rep_draw u * real n\<rfloor>"

definition drawOf :: "nat \<Rightarrow> nat \<Rightarrow> draw" where
  \<comment> \<open>the draw \<open>(k mod n) / n\<close>, which \<open>randInt _ n\<close> maps to \<open>k mod n\<close>\<close>
  "drawOf k n = Abs_draw (real (k mod n) / real n)"

text \<open>
  \<open>[1, ..., 9].sort(() => this.random() - 0.5)\<close>: with a comparator that is not
  consistent the order is left to the engine, which also decides how many draws it
  makes. The engine's sort is therefore a parameter: from the source, the number of draws
  made so far and the array it gives the reordered array and the new number of draws.
\<close>

type_synonym sorter = "rng \<Rightarrow> nat \<Rightarrow> nat list \<Rightarrow> nat list \<times> nat"

definition permuting :: "sorter \<Rightarrow> bool" where
  \<comment> \<open>what every engine guarantees of \<open>sort\<close>: the result holds the same elements\<close>
  "permuting srt = (\<forall>random pos xs. mset (fst (srt random pos xs)) = mset xs)"

section \<open>Solution generation\<close>

text \<open>
  \<open>generateSolution\<close> fills the array in place and returns a boolean; the model returns
  the boolean, the array as the call leaves it, and the number of draws made. The first
  argument bounds the depth of the recursion (\<open>None\<close>: the bound was reached).
\<close>

fun generateSolution :: "nat \<Rightarrow> sorter \<Rightarrow> rng \<Rightarrow> nat \<Rightarrow> grid \<Rightarrow> (bool \<times> grid \<times> nat) option"
  and tryNumbers ::
    "nat \<Rightarrow> sorter \<Rightarrow> rng \<Rightarrow> nat \<Rightarrow> nat \<Rightarrow> nat list \<Rightarrow> nat \<Rightarrow> grid \<Rightarrow> (bool \<times> grid \<times> nat) option"
where
  "generateSolution 0 srt random pos g = None"
| "generateSolution (Suc depth) srt random pos g =
     (case find (\<lambda>(row, col). g ! row ! col = 0) cells of
        None \<Rightarrow> Some (True, g, pos)
      | Some (row, col) \<Rightarrow>
          (case srt random pos [1..<10] of
             (numbers, pos') \<Rightarrow> tryNumbers depth srt random row col numbers pos' g))"
| "tryNumbers depth srt random row col [] pos g = Some (False, g, pos)"
| "tryNumbers depth srt random row col (num # rest) pos g =
     (if isValid g row col num then
        (case generateSolution depth srt random pos (setCell g row col num) of
           None \<Rightarrow> None
         | Some (True, g', pos') \<Rightarrow> Some (True, g', pos')
         | Some (False, g', pos') \<Rightarrow>
             tryNumbers depth srt random row col rest pos' (setCell g' row col 0))
      else tryNumbers depth srt random row col rest pos g)"

definition consistent :: "grid \<Rightarrow> bool" where
  \<comment> \<open>a partial Sudoku: values up to 9, and no placed value repeated in a row, column or box\<close>
  "consistent g =
     (wfGrid g \<and> (\<forall>r<9. \<forall>c<9. g ! r ! c \<le> 9) \<and>
      (\<forall>r<9. \<forall>c<9. \<forall>r'<9. \<forall>c'<9.
         (r \<noteq> r' \<or> c \<noteq> c') \<and> sameUnit r c r' c' \<and> g ! r ! c \<noteq> 0 \<longrightarrow> g ! r ! c \<noteq> g ! r' ! c'))"

definition agrees :: "grid \<Rightarrow> grid \<Rightarrow> bool" where
  \<comment> \<open>\<open>s\<close> holds the value of every cell that is filled in \<open>g\<close>\<close>
  "agrees s g = (\<forall>r<9. \<forall>c<9. g ! r ! c \<noteq> 0 \<longrightarrow> g ! r ! c = s ! r ! c)"

section \<open>Carving\<close>

definition cellsToRemoveOf :: "string \<Rightarrow> nat" where
  "cellsToRemoveOf d = (if d = ''easy'' then 40 else if d = ''medium'' then 50 else 60)"

function decimal :: "nat \<Rightarrow> string" where
  \<comment> \<open>a number in a template literal\<close>
  "decimal n = (if n < 10 then [char_of (48 + n)] else decimal (n div 10) @ [char_of (48 + n mod 10)])"
  by pat_completeness auto
termination
  by (relation "measure id") auto

definition keyOf :: "nat \<Rightarrow> nat \<Rightarrow> string" where
  "keyOf row col = decimal row @ ''-'' @ decimal col"

text \<open>
  The \<open>while\<close> loop of \<open>generatePuzzle\<close>. It need not end, so its value is an option:
  \<open>None\<close> when the loop runs forever. The state is the number of draws made,
  \<open>fullGrid\<close>, \<open>cellsRemoved\<close> and \<open>removed\<close>.
\<close>

partial_function (option) carveLoop ::
  "rng \<Rightarrow> nat \<Rightarrow> nat \<Rightarrow> grid \<Rightarrow> string list \<Rightarrow> nat \<Rightarrow> (nat \<times> grid \<times> string list \<times> nat) option"
where
  "carveLoop random cellsToRemove pos fullGrid cellsRemoved removed =
     (if removed < cellsToRemove then
        let row = randInt (random pos) 9;
            col = randInt (random (pos + 1)) 9;
            key = keyOf row col
        in if fullGrid ! row ! col \<noteq> 0 \<and> key \<notin> set cellsRemoved
           then carveLoop random cellsToRemove (pos + 2) (setCell fullGrid row col 0)
                  (cellsRemoved @ [key]) (removed + 1)
           else carveLoop random cellsToRemove (pos + 2) fullGrid cellsRemoved removed
      else Some (pos, fullGrid, cellsRemoved, removed))"

definition carve :: "rng \<Rightarrow> nat \<Rightarrow> grid \<Rightarrow> string \<Rightarrow> (nat \<times> grid \<times> string list \<times> nat) option" where
  \<comment> \<open>\<open>generatePuzzle\<close> from the copy of the solution to the end of the loop\<close>
  "carve random pos sol d = carveLoop random (cellsToRemoveOf d) pos sol [] 0"

definition generatePuzzle :: "nat \<Rightarrow> sorter \<Rightarrow> rng \<Rightarrow> nat \<Rightarrow> game \<Rightarrow> (game \<times> nat) option" where
  "generatePuzzle depth srt random pos gm =
     (case generateSolution depth srt random pos emptyGrid of
        None \<Rightarrow> None
      | Some (ok, sol, pos1) \<Rightarrow>
          (case carve random pos1 sol (difficulty gm) of
             None \<Rightarrow> None
           | Some (pos2, fullGrid, cellsRemoved, removed) \<Rightarrow>
               Some (gm\<lparr>solution := sol, grid := fullGrid, originalGrid := fullGrid\<rparr>, pos2)))"

definition coordAt :: "rng \<Rightarrow> nat \<Rightarrow> nat \<Rightarrow> nat \<times> nat" where
  \<comment> \<open>the coordinate the loop draws in its \<open>k\<close>-th round, when it started after \<open>pos\<close> draws\<close>
  "coordAt random pos k = (randInt (random (pos + 2 * k)) 9, randInt (random (pos + 2 * k + 1)) 9)"

definition complete :: "grid \<Rightarrow> bool" where
  \<comment> \<open>a 9 by 9 grid without an empty cell\<close>
  "complete g = (wfGrid g \<and> \<not> hasZero g)"

definition carveInv :: "rng \<Rightarrow> nat \<Rightarrow> grid \<Rightarrow> nat \<Rightarrow> grid \<Rightarrow> string list \<Rightarrow> nat \<Rightarrow> bool" where
  \<comment> \<open>the loop's state after \<open>k\<close> rounds on the solution \<open>sol\<close>, started after \<open>pos0\<close> draws\<close>
  "carveInv random pos0 sol k fullGrid cellsRemoved removed =
     (wfGrid fullGrid \<and> removed = length cellsRemoved \<and> distinct cellsRemoved \<and>
      set cellsRemoved = (\<lambda>(r, c). keyOf r c) ` coordAt random pos0 ` {..<k} \<and>
      (\<forall>r<9. \<forall>c<9. fullGrid ! r ! c = (if keyOf r c \<in> set cellsRemoved then 0 else sol ! r ! c)))"

section \<open>Hints\<close>

datatype hint = NoEmptyCells | Revealed nat nat nat

definition emptyCells :: "grid \<Rightarrow> (nat \<times> nat) list" where
  "emptyCells g = filter (\<lambda>(row, col). g ! row ! col = 0) cells"

definition grantHint :: "draw \<Rightarrow> game \<Rightarrow> hint \<times> game" where
  \<comment> \<open>\<open>u\<close> is the value \<open>this.random()\<close> returns; the first component says what the player is shown\<close>
  "grantHint u gm =
     (let ec = emptyCells (grid gm) in
      if length ec = 0 then (NoEmptyCells, gm)
      else
        let (row, col) = ec ! randInt u (length ec);
            v = solution gm ! row ! col;
            gm1 = gm\<lparr>grid := setCell (grid gm) row col v, hintsUsed := hintsUsed gm + 1\<rparr>
        in (Revealed row col v, checkGameCompletion gm1))"

section \<open>The daily seed\<close>

fun hashFrom :: "nat \<Rightarrow> string \<Rightarrow> nat" where
  \<comment> \<open>the loop over the characters (\<open>charCodeAt\<close> of an ASCII date string is the byte);
      \<open>>>> 0\<close> reduces modulo \<open>2^32\<close>, and the sum before it is below \<open>2^53\<close>, hence exact\<close>
  "hashFrom hash [] = hash"
| "hashFrom hash (c # cs) = hashFrom ((hash * 31 + of_char c) mod 4294967296) cs"

definition getDailySeed :: "string \<Rightarrow> nat" where
  \<comment> \<open>\<open>today\<close> is the date string the clock gives\<close>
  "getDailySeed today = hashFrom 0 today"

definition seedFromDateString :: "string \<Rightarrow> 32 word" where
  \<comment> \<open>the specification's fold, in unsigned 32-bit arithmetic\<close>
  "seedFromDateString s = foldl (\<lambda>hash c. hash * 31 + of_char c) 0 s"

section \<open>Example inputs\<close>

definition clashGrid :: grid where
  \<comment> \<open>the example solution with a second 1 in its first row\<close>
  "clashGrid = setCell exampleSolution 0 1 1"

definition blankedNines :: grid where
  "blankedNines = map (map (\<lambda>v. if v = 9 then 0 else v)) exampleSolution"

definition solvedGame :: game where
  "solvedGame = \<lparr>grid = exampleSolution, solution = exampleSolution,
     originalGrid = exampleSolution, difficulty = ''easy'', hintsUsed = 0,
     isGameComplete = False\<rparr>"

definition hintGame :: game where
  \<comment> \<open>a game with two empty cells, (0, 0) and (4, 4)\<close>
  "hintGame = \<lparr>grid = setCell (setCell exampleSolution 0 0 0) 4 4 0, solution = exampleSolution,
     originalGrid = setCell (setCell exampleSolution 0 0 0) 4 4 0, difficulty = ''easy'',
     hintsUsed = 0, isGameComplete = False\<rparr>"

definition seqStream :: rng where
  \<comment> \<open>a source whose draws walk through the cells in row-major order, again and again\<close>
  "seqStream i = drawOf (if even i then (i div 2) div 9 else (i div 2) mod 9) 9"

definition zeroStream :: rng where
  \<comment> \<open>the source that returns 0 on every call\<close>
  "zeroStream i = drawOf 0 1"

definition rotSorter :: sorter where
  \<comment> \<open>an engine whose sort rotates the array by an amount read off the number of draws\<close>
  "rotSorter random pos xs = (rotate (3 * (pos div 9) + (pos div 9) div 3 + pos mod 9) xs, pos + 1)"

definition lateStream :: rng where
  \<comment> \<open>\<open>seqStream\<close> read from its 82nd draw on\<close>
  "lateStream i = seqStream (i + 81)"

section \<open>Facts about units\<close>

lemma box_range: "r \<in> set [(row div 3) * 3..<(row div 3) * 3 + 3] \<longleftrightarrow> r div 3 = row div 3"
  by (simp) arith

lemma cells_set: "set cells = {(r, c). r < 9 \<and> c < 9}"
  by (auto simp: cells_def)

section \<open>Single-cell conflicts\<close>

lemma isCellConflicting_iff:
  "isCellConflicting g row col \<longleftrightarrow>
     g ! row ! col \<noteq> 0 \<and>
     (\<exists>r<9. \<exists>c<9. (r \<noteq> row \<or> c \<noteq> col) \<and> sameUnit row col r c \<and> g ! r ! c = g ! row ! col)"
  if "row < 9" "col < 9"
proof -
  have rb: "\<And>r. r div 3 = row div 3 \<Longrightarrow> r < 9" using that by arith
  have cb: "\<And>c. c div 3 = col div 3 \<Longrightarrow> c < 9" using that by arith
  have "isCellConflicting g row col \<longleftrightarrow>
     g ! row ! col \<noteq> 0 \<and>
      ((\<exists>i<9. (i \<noteq> col \<and> g ! row ! i = g ! row ! col) \<or> (i \<noteq> row \<and> g ! i ! col = g ! row ! col)) \<or>
       (\<exists>r c. r div 3 = row div 3 \<and> c div 3 = col div 3 \<and> (r \<noteq> row \<or> c \<noteq> col) \<and>
              g ! r ! c = g ! row ! col))"
    unfolding isCellConflicting_def Let_def list_ex_iff Bex_def box_range
    by auto
  also have "\<dots> \<longleftrightarrow> g ! row ! col \<noteq> 0 \<and>
     (\<exists>r<9. \<exists>c<9. (r \<noteq> row \<or> c \<noteq> col) \<and> sameUnit row col r c \<and> g ! r ! c = g ! row ! col)"
    unfolding sameUnit_def using that rb cb by blast
  finally show ?thesis .
qed

lemma sameUnit_sym: "sameUnit row col r c \<Longrightarrow> sameUnit r c row col"
  by (auto simp: sameUnit_def)

text \<open>
  C4. On a 9 by 9 grid and a coordinate inside it, \<open>isCellConflicting\<close> holds exactly
  when the cell is not empty and another cell of its row, column or box holds the same
  value. An empty cell never conflicts, and when two different cells of one row, column
  or box hold the same non-zero value, both of them conflict.
\<close>

theorem isCellConflicting_spec:
  assumes "wfGrid g" "row < 9" "col < 9"
  shows "(isCellConflicting g row col \<longleftrightarrow>
           g ! row ! col \<noteq> 0 \<and>
           (\<exists>r<9. \<exists>c<9. (r \<noteq> row \<or> c \<noteq> col) \<and> sameUnit row col r c \<and>
                          g ! r ! c = g ! row ! col)) \<and>
         (g ! row ! col = 0 \<longrightarrow> \<not> isCellConflicting g row col) \<and>
         (\<forall>r<9. \<forall>c<9. (r \<noteq> row \<or> c \<noteq> col) \<and> sameUnit row col r c \<and>
                        g ! row ! col \<noteq> 0 \<and> g ! r ! c = g ! row ! col \<longrightarrow>
                        isCellConflicting g row col \<and> isCellConflicting g r c)"
proof -
  have a: "isCellConflicting g row col \<longleftrightarrow>
           g ! row ! col \<noteq> 0 \<and>
           (\<exists>r<9. \<exists>c<9. (r \<noteq> row \<or> c \<noteq> col) \<and> sameUnit row col r c \<and>
                          g ! r ! c = g ! row ! col)"
    using assms(2,3) by (rule isCellConflicting_iff)
  have b: "isCellConflicting g r c"
    if "r < 9" "c < 9" "r \<noteq> row \<or> c \<noteq> col" "sameUnit row col r c"
       "g ! row ! col \<noteq> 0" "g ! r ! c = g ! row ! col" for r c
    unfolding isCellConflicting_iff [OF that(1,2)]
    using that assms(2,3) sameUnit_sym by metis
  show ?thesis using a b by blast
qed

theorem isCellConflicting_spec_witness:
  "isCellConflicting clashGrid 0 0 \<and> isCellConflicting clashGrid 0 1"
proof -
  have wf: "wfGrid clashGrid"
    by (simp add: clashGrid_def exampleSolution_def setCell_def wfGrid_def)
  have h0: "(0::nat) < 9" and h1: "(1::nat) < 9"
    by simp_all
  note both = isCellConflicting_spec [OF wf h0 h0, THEN conjunct2, THEN conjunct2, rule_format, OF h0 h1]
  show ?thesis
    by (rule both) (simp add: clashGrid_def exampleSolution_def setCell_def sameUnit_def)
qed

section \<open>Whole-grid validity\<close>

lemma scanSeen_iff: "scanSeen seen xs \<longleftrightarrow> distinct xs \<and> set xs \<inter> seen = {}"
  by (induction xs arbitrary: seen) auto

lemma boxOf_product:
  "boxOf g br bc = map (\<lambda>(i, j). g ! i ! j) (List.product [br..<br + 3] [bc..<bc + 3])"
  by (simp add: boxOf_def product_concat_map map_concat comp_def)

lemma distinct_rowOf: "distinct (rowOf g r) \<longleftrightarrow> (\<forall>c<9. \<forall>c'<9. c \<noteq> c' \<longrightarrow> g ! r ! c \<noteq> g ! r ! c')"
  unfolding rowOf_def distinct_map inj_on_def by (simp add: Ball_def) blast

lemma distinct_colOf: "distinct (colOf g c) \<longleftrightarrow> (\<forall>r<9. \<forall>r'<9. r \<noteq> r' \<longrightarrow> g ! r ! c \<noteq> g ! r' ! c)"
  unfolding colOf_def distinct_map inj_on_def by (simp add: Ball_def) blast

lemma distinct_boxOf:
  "distinct (boxOf g br bc) \<longleftrightarrow>
     (\<forall>i j i' j'. br \<le> i \<and> i < br + 3 \<and> bc \<le> j \<and> j < bc + 3 \<and>
                  br \<le> i' \<and> i' < br + 3 \<and> bc \<le> j' \<and> j' < bc + 3 \<and> (i \<noteq> i' \<or> j \<noteq> j')
                  \<longrightarrow> g ! i ! j \<noteq> g ! i' ! j')"
  unfolding boxOf_product distinct_map inj_on_def
  by (simp add: distinct_product Ball_def) blast

lemma isSolutionValid_distinct:
  "isSolutionValid g \<longleftrightarrow>
     (\<forall>r<9. distinct (rowOf g r)) \<and> (\<forall>c<9. distinct (colOf g c)) \<and>
     (\<forall>br\<in>{0, 3, 6}. \<forall>bc\<in>{0, 3, 6}. distinct (boxOf g br bc))"
  by (simp add: isSolutionValid_def scanSeen_iff list_all_iff Ball_def)

lemma corner: "r < 9 \<Longrightarrow> (r div 3) * 3 \<in> {0, 3, 6::nat}"
  by simp arith

lemma in_box: "(r div 3) * 3 \<le> r \<and> r < (r div 3) * 3 + 3" for r :: nat
  by arith

lemma isSolutionValid_noClash: "isSolutionValid g \<longleftrightarrow> noClash g"
proof
  assume v: "isSolutionValid g"
  show "noClash g"
    unfolding noClash_def
  proof (intro allI impI)
    fix r c r' c' :: nat
    assume b: "r < 9" "c < 9" "r' < 9" "c' < 9"
      and h: "(r \<noteq> r' \<or> c \<noteq> c') \<and> sameUnit r c r' c'"
    from h consider "r' = r" "c \<noteq> c'" | "c' = c" "r \<noteq> r'"
      | "r' div 3 = r div 3" "c' div 3 = c div 3" "r \<noteq> r' \<or> c \<noteq> c'"
      by (auto simp: sameUnit_def)
    then show "g ! r ! c \<noteq> g ! r' ! c'"
    proof cases
      case 1
      with v b show ?thesis by (simp add: isSolutionValid_distinct distinct_rowOf)
    next
      case 2
      with v b show ?thesis by (simp add: isSolutionValid_distinct distinct_colOf)
    next
      case 3
      from v corner[OF b(1)] corner[OF b(2)]
      have d: "distinct (boxOf g ((r div 3) * 3) ((c div 3) * 3))"
        unfolding isSolutionValid_distinct by blast
      show ?thesis
        using d[unfolded distinct_boxOf, rule_format, of r c r' c'] 3
          in_box[of r] in_box[of c] in_box[of r'] in_box[of c'] by simp
    qed
  qed
next
  assume n: "noClash g"
  have rows: "distinct (rowOf g r)" if "r < 9" for r
    unfolding distinct_rowOf using n that by (simp add: noClash_def sameUnit_def)
  have cols: "distinct (colOf g c)" if "c < 9" for c
    unfolding distinct_colOf using n that by (simp add: noClash_def sameUnit_def)
  have boxes: "distinct (boxOf g br bc)" if "br \<in> {0, 3, 6}" "bc \<in> {0, 3, 6}" for br bc
    unfolding distinct_boxOf
  proof (intro allI impI)
    fix i j i' j'
    assume a: "br \<le> i \<and> i < br + 3 \<and> bc \<le> j \<and> j < bc + 3 \<and>
                  br \<le> i' \<and> i' < br + 3 \<and> bc \<le> j' \<and> j' < bc + 3 \<and> (i \<noteq> i' \<or> j \<noteq> j')"
    have k: "x div 3 = y div 3 \<and> x < 9 \<and> y < 9"
      if "b \<in> {0, 3, 6}" "b \<le> x \<and> x < b + 3" "b \<le> y \<and> y < b + 3" for b x y :: nat
      using that by (elim insertE emptyE; simp; arith)
    from k[OF that(1), of i i'] k[OF that(2), of j j'] a
    have "i < 9" "j < 9" "i' < 9" "j' < 9" "i div 3 = i' div 3" "j div 3 = j' div 3"
      by simp_all
    with a n show "g ! i ! j \<noteq> g ! i' ! j'"
      unfolding noClash_def sameUnit_def by metis
  qed
  show "isSolutionValid g"
    unfolding isSolutionValid_distinct using rows cols boxes by blast
qed

lemma perm19_iff: "perm19 xs \<longleftrightarrow> distinct xs \<and> set xs = {1..<10}"
proof
  assume "perm19 xs"
  then have s: "sort xs = [1..<10]" by (simp add: perm19_def)
  have "distinct (sort xs)" by (simp add: s)
  then have d: "distinct xs" by simp
  have "set xs = set (sort xs)" by simp
  with s d show "distinct xs \<and> set xs = {1..<10}" by simp
next
  assume a: "distinct xs \<and> set xs = {1..<10}"
  have "sort xs = sort (remdups xs)"
    using a by (simp add: distinct_remdups_id)
  also have "\<dots> = sorted_list_of_set (set xs)"
    by (rule sorted_list_of_set_sort_remdups [symmetric])
  also have "\<dots> = sorted_list_of_set {1..<10}"
    using a by simp
  also have "\<dots> = [1..<10]"
    by (rule sorted_list_of_set_range)
  finally show "perm19 xs" by (simp add: perm19_def)
qed

lemma perm19_filled:
  assumes "length xs = 9" "distinct xs" "\<forall>x\<in>set xs. x \<noteq> 0 \<and> x \<le> 9"
  shows "perm19 xs"
proof -
  have sub: "set xs \<subseteq> {1..<10}" using assms(3) by force
  have "card (set xs) = 9" using assms(1,2) by (simp add: distinct_card)
  then have "set xs = {1..<10}" using sub by (intro card_subset_eq) simp_all
  with assms(2) show ?thesis by (simp add: perm19_iff)
qed

lemma hasZero_iff: "hasZero g \<longleftrightarrow> (\<exists>r<9. \<exists>c<9. g ! r ! c = 0)"
  by (auto simp: hasZero_def list_ex_iff cells_set)

lemma length_boxOf: "length (boxOf g br bc) = 9"
  by (simp add: boxOf_product)

lemma set_boxOf:
  "x \<in> set (boxOf g br bc) \<longleftrightarrow>
     (\<exists>i j. x = g ! i ! j \<and> br \<le> i \<and> i < br + 3 \<and> bc \<le> j \<and> j < bc + 3)"
  unfolding boxOf_product by (simp add: image_iff Bex_def) blast

lemma noConflict_iff:
  assumes "\<not> hasZero g"
  shows "(\<forall>r<9. \<forall>c<9. \<not> isCellConflicting g r c) \<longleftrightarrow> noClash g"
proof
  assume a: "\<forall>r<9. \<forall>c<9. \<not> isCellConflicting g r c"
  show "noClash g"
    unfolding noClash_def
  proof (intro allI impI)
    fix r c r' c' :: nat
    assume b: "r < 9" "c < 9" "r' < 9" "c' < 9"
      and h: "(r \<noteq> r' \<or> c \<noteq> c') \<and> sameUnit r c r' c'"
    have nz: "g ! r ! c \<noteq> 0" using assms b by (auto simp: hasZero_iff)
    have "\<not> isCellConflicting g r c" using a b by simp
    then have "\<not> (\<exists>x<9. \<exists>y<9. (x \<noteq> r \<or> y \<noteq> c) \<and> sameUnit r c x y \<and> g ! x ! y = g ! r ! c)"
      using nz by (simp only: isCellConflicting_iff [OF b(1,2)] simp_thms)
    with b h show "g ! r ! c \<noteq> g ! r' ! c'" by metis
  qed
next
  assume n: "noClash g"
  show "\<forall>r<9. \<forall>c<9. \<not> isCellConflicting g r c"
  proof (intro allI impI)
    fix r c :: nat
    assume b: "r < 9" "c < 9"
    show "\<not> isCellConflicting g r c"
    proof
      assume "isCellConflicting g r c"
      then obtain x y where xy: "x < 9" "y < 9" "x \<noteq> r \<or> y \<noteq> c" "sameUnit r c x y"
        "g ! x ! y = g ! r ! c"
        unfolding isCellConflicting_iff [OF b] by blast
      from n [unfolded noClash_def, rule_format, of r c x y] b xy
      show False by metis
    qed
  qed
qed

lemma solved_iff:
  assumes "wfGrid g" "\<forall>r<9. \<forall>c<9. g ! r ! c \<le> 9"
  shows "solved g \<longleftrightarrow> \<not> hasZero g \<and> isSolutionValid g"
proof
  assume s: "solved g"
  then have "\<forall>r<9. distinct (rowOf g r)" "\<forall>c<9. distinct (colOf g c)"
    "\<forall>br\<in>{0, 3, 6}. \<forall>bc\<in>{0, 3, 6}. distinct (boxOf g br bc)"
    by (simp_all add: solved_def list_all_iff perm19_iff)
  with s show "\<not> hasZero g \<and> isSolutionValid g"
    by (simp add: isSolutionValid_distinct solved_def)
next
  assume a: "\<not> hasZero g \<and> isSolutionValid g"
  then have nz: "\<And>r c. r < 9 \<Longrightarrow> c < 9 \<Longrightarrow> g ! r ! c \<noteq> 0 \<and> g ! r ! c \<le> 9"
    using assms(2) by (simp add: hasZero_iff)
  from a have d: "\<forall>r<9. distinct (rowOf g r)" "\<forall>c<9. distinct (colOf g c)"
    "\<forall>br\<in>{0, 3, 6}. \<forall>bc\<in>{0, 3, 6}. distinct (boxOf g br bc)"
    by (simp_all add: isSolutionValid_distinct)
  have rows: "perm19 (rowOf g r)" if "r < 9" for r
    using d(1) that nz by (intro perm19_filled) (auto simp: rowOf_def)
  have cols: "perm19 (colOf g c)" if "c < 9" for c
    using d(2) that nz by (intro perm19_filled) (auto simp: colOf_def)
  have boxes: "perm19 (boxOf g br bc)" if "br \<in> {0, 3, 6}" "bc \<in> {0, 3, 6}" for br bc
  proof (intro perm19_filled)
    show "length (boxOf g br bc) = 9" by (rule length_boxOf)
    show "distinct (boxOf g br bc)" using d(3) that by blast
    show "\<forall>x\<in>set (boxOf g br bc). x \<noteq> 0 \<and> x \<le> 9"
    proof
      fix x assume "x \<in> set (boxOf g br bc)"
      then obtain i j where x: "x = g ! i ! j" and b: "br \<le> i" "i < br + 3" "bc \<le> j" "j < bc + 3"
        by (auto simp: set_boxOf)
      from that b have "i < 9" "j < 9" by auto
      with nz x show "x \<noteq> 0 \<and> x \<le> 9" by simp
    qed
  qed
  show "solved g"
    unfolding solved_def using assms(1) a rows cols boxes
    by (simp add: list_all_iff)
qed



lemma all_cells: "(\<forall>r<9. \<forall>c<9. P r c) \<longleftrightarrow> list_all (\<lambda>(r, c). P r c) cells"
  by (auto simp: list_all_iff cells_set)

lemma wf_exampleSolution: "wfGrid exampleSolution"
  by code_simp

lemma range_exampleSolution: "\<forall>r<9. \<forall>c<9. 1 \<le> exampleSolution ! r ! c \<and> exampleSolution ! r ! c \<le> 9"
  unfolding all_cells by code_simp

lemma valid_exampleSolution: "isSolutionValid exampleSolution"
  by code_simp

lemma noZero_exampleSolution: "\<not> hasZero exampleSolution"
  by code_simp

text \<open>
  C6. On a grid whose 81 cells all hold a value from 1 to 9, \<open>isSolutionValid\<close>
  holds exactly when \<open>isCellConflicting\<close> is false at every coordinate.
\<close>

theorem isSolutionValid_no_conflict:
  assumes "wfGrid g" "\<forall>r<9. \<forall>c<9. 1 \<le> g ! r ! c \<and> g ! r ! c \<le> 9"
  shows "isSolutionValid g \<longleftrightarrow> (\<forall>r<9. \<forall>c<9. \<not> isCellConflicting g r c)"
proof -
  have "\<not> hasZero g"
    unfolding hasZero_iff using assms(2) by (metis not_one_le_zero)
  then show ?thesis by (simp add: noConflict_iff isSolutionValid_noClash)
qed

theorem isSolutionValid_no_conflict_witness:
  "isSolutionValid exampleSolution \<and> \<not> isCellConflicting exampleSolution 4 4"
proof -
  have "\<forall>r<9. \<forall>c<9. \<not> isCellConflicting exampleSolution r c"
    using isSolutionValid_no_conflict [OF wf_exampleSolution range_exampleSolution]
      valid_exampleSolution by simp
  then have "\<not> isCellConflicting exampleSolution 4 4"
    by simp
  with valid_exampleSolution show ?thesis
    by simp
qed

text \<open>
  C5, as stated, fails for \<open>isSolutionValid\<close>: it only looks for a repeated value,
  and \<open>0\<close> is a value like any other. The example solution with its nines blanked has
  one zero in each row, column and box and passes.
\<close>

theorem isSolutionValid_zero_counterexample:
  "isSolutionValid blankedNines \<and> hasZero blankedNines \<and> \<not> solved blankedNines"
  by code_simp

text \<open>
  C5, amended. The completion test is the scan for an empty cell in
  \<open>checkGameCompletion\<close> followed by \<open>isSolutionValid\<close>: on a 9 by 9 grid of
  values from 0 to 9 a game not yet complete is marked complete exactly when every row,
  column and box is a permutation of 1..9, and never when the grid has an empty cell.
\<close>

theorem checkGameCompletion_spec:
  assumes "wfGrid (grid gm)" "\<forall>r<9. \<forall>c<9. grid gm ! r ! c \<le> 9" "\<not> isGameComplete gm"
  shows "(isGameComplete (checkGameCompletion gm) \<longleftrightarrow> solved (grid gm)) \<and>
         (hasZero (grid gm) \<longrightarrow> \<not> isGameComplete (checkGameCompletion gm))"
  using assms(3) by (simp add: checkGameCompletion_def solved_iff [OF assms(1,2)])

theorem checkGameCompletion_spec_witness:
  "solved (grid solvedGame) \<and> \<not> hasZero (grid solvedGame)"
proof -
  have g: "grid solvedGame = exampleSolution" and n: "\<not> isGameComplete solvedGame"
    by (simp_all add: solvedGame_def)
  have wf: "wfGrid (grid solvedGame)"
    by (simp add: g wf_exampleSolution)
  have rg: "\<forall>r<9. \<forall>c<9. grid solvedGame ! r ! c \<le> 9"
    using range_exampleSolution by (simp add: g)
  have "isGameComplete (checkGameCompletion solvedGame)"
    using valid_exampleSolution noZero_exampleSolution n
    by (simp add: checkGameCompletion_def g)
  with checkGameCompletion_spec [OF wf rg n] show ?thesis
    by blast
qed

section \<open>The daily seed is the 32-bit string hash\<close>

lemma hash_step:
  "(unat h * 31 + of_char c) mod 4294967296 = unat (h * 31 + of_char c :: 32 word)"
proof -
  have "(h * 31 + of_char c :: 32 word) = word_of_nat (unat h * 31 + of_char c)"
    by (simp add: of_nat_of_char)
  then have "unat (h * 31 + of_char c :: 32 word) = unat (word_of_nat (unat h * 31 + of_char c) :: 32 word)"
    by simp
  also have "\<dots> = (unat h * 31 + of_char c) mod 2 ^ LENGTH(32)"
    by (rule unat_of_nat)
  finally show ?thesis by simp
qed

lemma hashFrom_fold:
  "hashFrom (unat h) s = unat (foldl (\<lambda>hash c. hash * 31 + of_char c) (h :: 32 word) s)"
  by (induction s arbitrary: h) (simp_all add: hash_step)

text \<open>
  C9. For every date string the seed is the fold of \<open>hash * 31 + charCode\<close> over its
  characters in unsigned 32-bit arithmetic, started at 0; it is below \<open>2^32\<close> and, being
  a function of the string alone, the same on every computation.
\<close>

theorem getDailySeed_spec:
  "getDailySeed s = unat (seedFromDateString s) \<and> getDailySeed s < 2 ^ 32"
proof -
  have e: "getDailySeed s = unat (seedFromDateString s)"
    using hashFrom_fold [of 0 s] by (simp add: getDailySeed_def seedFromDateString_def)
  have "unat (seedFromDateString s) < 2 ^ LENGTH(32)"
    by (rule unsigned_less)
  with e show ?thesis by simp
qed

lemma getDailySeed_example: "getDailySeed ''2024-01-01'' = 3681625664"
  by (simp add: getDailySeed_def)

section \<open>Properties of hints\<close>

lemma Rep_draw_bounds: "0 \<le> Rep_draw u \<and> Rep_draw u < 1"
  using Rep_draw [of u] by simp

lemma randInt_less: "0 < n \<Longrightarrow> randInt u n < n"
proof -
  assume n: "0 < n"
  have "Rep_draw u * real n < real n"
    using Rep_draw_bounds [of u] n by simp
  then have a: "\<lfloor>Rep_draw u * real n\<rfloor> < int n"
    by (simp add: floor_less_iff)
  have b: "0 \<le> \<lfloor>Rep_draw u * real n\<rfloor>"
    using Rep_draw_bounds [of u] by simp
  show ?thesis
    unfolding randInt_def using a b by linarith
qed

lemma Rep_drawOf: "0 < n \<Longrightarrow> Rep_draw (drawOf k n) = real (k mod n) / real n"
  unfolding drawOf_def by (rule Abs_draw_inverse) simp

lemma randInt_drawOf: "0 < n \<Longrightarrow> randInt (drawOf k n) n = k mod n"
  by (simp add: randInt_def Rep_drawOf)

lemma set_emptyCells: "set (emptyCells g) = {(r, c). r < 9 \<and> c < 9 \<and> g ! r ! c = 0}"
  by (auto simp: emptyCells_def cells_set)

lemma emptyCells_Nil: "emptyCells g = [] \<longleftrightarrow> \<not> hasZero g"
  by (simp add: emptyCells_def hasZero_def filter_empty_conv list_ex_iff)

lemma grid_checkGameCompletion: "grid (checkGameCompletion gm) = grid gm"
  and solution_checkGameCompletion: "solution (checkGameCompletion gm) = solution gm"
  by (simp_all add: checkGameCompletion_def)

lemma nth_setCell:
  assumes "wfGrid g" "r < 9" "c < 9"
  shows "setCell g row col v ! r ! c = (if r = row \<and> c = col then v else g ! r ! c)"
proof -
  have l: "length g = 9" "length (g ! row) = 9" if "row < 9"
    using assms(1) that by (simp_all add: wfGrid_def list_all_length)
  show ?thesis
    using assms l by (cases "row < 9") (auto simp: setCell_def nth_list_update)
qed

lemma grantHint_cases:
  "(hasZero (grid gm) \<longrightarrow>
      (\<exists>row col. row < 9 \<and> col < 9 \<and> grid gm ! row ! col = 0 \<and>
         grantHint u gm =
           (Revealed row col (solution gm ! row ! col),
            checkGameCompletion
              (gm\<lparr>grid := setCell (grid gm) row col (solution gm ! row ! col),
                  hintsUsed := hintsUsed gm + 1\<rparr>)))) \<and>
   (\<not> hasZero (grid gm) \<longrightarrow> grantHint u gm = (NoEmptyCells, gm))"
proof (cases "hasZero (grid gm)")
  case False
  then show ?thesis by (simp add: grantHint_def emptyCells_Nil)
next
  case True
  let ?ec = "emptyCells (grid gm)"
  from True have ne: "0 < length ?ec" by (simp add: emptyCells_Nil)
  obtain row col where rc: "?ec ! randInt u (length ?ec) = (row, col)"
    by (cases "?ec ! randInt u (length ?ec)")
  have "(row, col) \<in> set ?ec"
    using randInt_less [OF ne, of u] rc by (metis nth_mem)
  then have "row < 9" "col < 9" "grid gm ! row ! col = 0"
    by (simp_all add: set_emptyCells)
  moreover have "grantHint u gm =
           (Revealed row col (solution gm ! row ! col),
            checkGameCompletion
              (gm\<lparr>grid := setCell (grid gm) row col (solution gm ! row ! col),
                  hintsUsed := hintsUsed gm + 1\<rparr>))"
    using ne rc by (simp add: grantHint_def Let_def)
  ultimately show ?thesis using True by blast
qed

lemma hintsUsed_checkGameCompletion: "hintsUsed (checkGameCompletion gm) = hintsUsed gm"
  by (simp add: checkGameCompletion_def)

text \<open>
  C3. The source function returns nothing: what it reveals is what it writes into the
  player grid. On 9 by 9 grids, when the player grid has an empty cell, there is a
  coordinate inside the grid whose player value is 0 at the call such that the game
  after the call holds the solution's value there, every other cell as before, the
  solution unchanged and one more hint counted. When it has none, the call reports that
  there is no empty cell and leaves the whole game, counter included, as it is.
\<close>

theorem grantHint_spec:
  assumes "wfGrid (grid gm)" "wfGrid (solution gm)"
  shows "(hasZero (grid gm) \<longrightarrow>
           (\<exists>row col. row < 9 \<and> col < 9 \<and> grid gm ! row ! col = 0 \<and>
              fst (grantHint u gm) = Revealed row col (solution gm ! row ! col) \<and>
              grid (snd (grantHint u gm)) = setCell (grid gm) row col (solution gm ! row ! col) \<and>
              grid (snd (grantHint u gm)) ! row ! col = solution gm ! row ! col \<and>
              (\<forall>r<9. \<forall>c<9. r \<noteq> row \<or> c \<noteq> col \<longrightarrow>
                 grid (snd (grantHint u gm)) ! r ! c = grid gm ! r ! c) \<and>
              solution (snd (grantHint u gm)) = solution gm \<and>
              hintsUsed (snd (grantHint u gm)) = hintsUsed gm + 1)) \<and>
         (\<not> hasZero (grid gm) \<longrightarrow> grantHint u gm = (NoEmptyCells, gm))"
proof (intro conjI impI)
  assume "\<not> hasZero (grid gm)"
  with grantHint_cases [of gm u] show "grantHint u gm = (NoEmptyCells, gm)"
    by simp
next
  assume "hasZero (grid gm)"
  with grantHint_cases [of gm u] obtain row col where b: "row < 9" "col < 9"
    and z: "grid gm ! row ! col = 0"
    and e: "grantHint u gm =
           (Revealed row col (solution gm ! row ! col),
            checkGameCompletion
              (gm\<lparr>grid := setCell (grid gm) row col (solution gm ! row ! col),
                  hintsUsed := hintsUsed gm + 1\<rparr>))"
    by blast
  let ?v = "solution gm ! row ! col"
  let ?gm' = "snd (grantHint u gm)"
  have f: "fst (grantHint u gm) = Revealed row col ?v"
    by (simp add: e)
  have g: "grid ?gm' = setCell (grid gm) row col ?v"
    by (simp add: e grid_checkGameCompletion)
  have s: "solution ?gm' = solution gm"
    by (simp add: e solution_checkGameCompletion)
  have h: "hintsUsed ?gm' = hintsUsed gm + 1"
    by (simp add: e hintsUsed_checkGameCompletion)
  have w: "grid ?gm' ! row ! col = ?v"
    using b by (simp add: g nth_setCell [OF assms(1)])
  have o: "\<forall>r<9. \<forall>c<9. r \<noteq> row \<or> c \<noteq> col \<longrightarrow> grid ?gm' ! r ! c = grid gm ! r ! c"
    by (auto simp: g nth_setCell [OF assms(1)])
  from b z f g w o s h
  show "\<exists>row col. row < 9 \<and> col < 9 \<and> grid gm ! row ! col = 0 \<and>
              fst (grantHint u gm) = Revealed row col (solution gm ! row ! col) \<and>
              grid (snd (grantHint u gm)) = setCell (grid gm) row col (solution gm ! row ! col) \<and>
              grid (snd (grantHint u gm)) ! row ! col = solution gm ! row ! col \<and>
              (\<forall>r<9. \<forall>c<9. r \<noteq> row \<or> c \<noteq> col \<longrightarrow>
                 grid (snd (grantHint u gm)) ! r ! c = grid gm ! r ! c) \<and>
              solution (snd (grantHint u gm)) = solution gm \<and>
              hintsUsed (snd (grantHint u gm)) = hintsUsed gm + 1"
    by (intro exI [of _ row] exI [of _ col] conjI)
qed

text \<open>
  C7, amended. \<open>grantHint\<close> itself writes the revealed value: after a hint at
  \<open>(row, col)\<close> the player grid holds the solution's value there and every other
  cell is as before; with no empty cell the player grid is unchanged. The solution grid
  is never changed.
\<close>

theorem grantHint_frame:
  assumes "wfGrid (grid gm)" "grantHint u gm = (h, gm')"
  shows "solution gm' = solution gm \<and>
         (h = NoEmptyCells \<longrightarrow> grid gm' = grid gm) \<and>
         (\<forall>row col v. h = Revealed row col v \<longrightarrow>
            grid gm' ! row ! col = solution gm ! row ! col \<and>
            (\<forall>r<9. \<forall>c<9. r \<noteq> row \<or> c \<noteq> col \<longrightarrow> grid gm' ! r ! c = grid gm ! r ! c))"
proof (cases "hasZero (grid gm)")
  case False
  with grantHint_cases [of gm u] assms(2) show ?thesis by simp
next
  case True
  with grantHint_cases [of gm u] assms(2)
  obtain row col where rc: "row < 9" "col < 9" "h = Revealed row col (solution gm ! row ! col)"
    "gm' = checkGameCompletion
              (gm\<lparr>grid := setCell (grid gm) row col (solution gm ! row ! col),
                  hintsUsed := hintsUsed gm + 1\<rparr>)"
    by auto
  have g: "grid gm' = setCell (grid gm) row col (solution gm ! row ! col)"
    and s: "solution gm' = solution gm"
    by (simp_all add: rc(4) grid_checkGameCompletion solution_checkGameCompletion)
  show ?thesis
    using rc(1,2,3) s by (auto simp: g nth_setCell [OF assms(1)])
qed


lemma hintGame_facts:
  "wfGrid (grid hintGame)" "wfGrid (solution hintGame)" "hasZero (grid hintGame)"
  "emptyCells (grid hintGame) = [(0, 0), (4, 4)]"
  by code_simp+

lemma solvedGame_facts:
  "wfGrid (grid solvedGame)" "wfGrid (solution solvedGame)" "\<not> hasZero (grid solvedGame)"
  by code_simp+

lemma grantHint_hintGame:
  "fst (grantHint (drawOf 1 2) hintGame) = Revealed 4 4 9"
proof -
  have "randInt (drawOf 1 2) 2 = 1"
    by (simp add: randInt_drawOf)
  then have r: "randInt (drawOf (Suc 0) 2) (Suc (Suc 0)) = Suc 0"
    by (simp add: numeral_2_eq_2)
  have "solution hintGame ! 4 ! 4 = 9"
    by code_simp
  then show ?thesis
    by (simp add: grantHint_def hintGame_facts(4) r)
qed

theorem grantHint_spec_witness:
  "(\<exists>row col. row < 9 \<and> col < 9 \<and> grid hintGame ! row ! col = 0 \<and>
      grid (snd (grantHint (drawOf 1 2) hintGame)) ! row ! col = solution hintGame ! row ! col \<and>
      hintsUsed (snd (grantHint (drawOf 1 2) hintGame)) = hintsUsed hintGame + 1) \<and>
   grantHint (drawOf 1 2) solvedGame = (NoEmptyCells, solvedGame)"
proof -
  from grantHint_spec [OF hintGame_facts(1,2), of "drawOf 1 2"] hintGame_facts(3)
  obtain row col where "row < 9" "col < 9" "grid hintGame ! row ! col = 0"
    "grid (snd (grantHint (drawOf 1 2) hintGame)) ! row ! col = solution hintGame ! row ! col"
    "hintsUsed (snd (grantHint (drawOf 1 2) hintGame)) = hintsUsed hintGame + 1"
    by blast
  then have "\<exists>row col. row < 9 \<and> col < 9 \<and> grid hintGame ! row ! col = 0 \<and>
      grid (snd (grantHint (drawOf 1 2) hintGame)) ! row ! col = solution hintGame ! row ! col \<and>
      hintsUsed (snd (grantHint (drawOf 1 2) hintGame)) = hintsUsed hintGame + 1"
    by (intro exI [of _ row] exI [of _ col] conjI)
  moreover from grantHint_spec [OF solvedGame_facts(1,2), of "drawOf 1 2"] solvedGame_facts(3)
  have "grantHint (drawOf 1 2) solvedGame = (NoEmptyCells, solvedGame)"
    by blast
  ultimately show ?thesis ..
qed

text \<open>
  C7, as stated, fails: \<open>grantHint\<close> assigns \<open>this.grid[row][col]\<close>. In the
  example the cell (4, 4) is empty before the call and holds 9 after it.
\<close>

theorem grantHint_mutates_counterexample:
  "grid hintGame ! 4 ! 4 = 0 \<and> grid (snd (grantHint (drawOf 1 2) hintGame)) ! 4 ! 4 = 9"
proof -
  have "randInt (drawOf 1 2) 2 = 1"
    by (simp add: randInt_drawOf)
  then have r: "randInt (drawOf (Suc 0) 2) (Suc (Suc 0)) = Suc 0"
    by (simp add: numeral_2_eq_2)
  have s: "solution hintGame ! 4 ! 4 = 9" and z: "grid hintGame ! 4 ! 4 = 0"
    by code_simp+
  have "grid (snd (grantHint (drawOf 1 2) hintGame)) = setCell (grid hintGame) 4 4 9"
    by (simp add: grantHint_def hintGame_facts(4) r s grid_checkGameCompletion)
  then show ?thesis
    using z by (simp add: nth_setCell [OF hintGame_facts(1)])
qed

theorem grantHint_frame_witness:
  "grid (snd (grantHint (drawOf 1 2) hintGame)) ! 4 ! 4 = 9 \<and>
   grid (snd (grantHint (drawOf 1 2) hintGame)) ! 0 ! 0 = 0"
proof -
  have p: "grantHint (drawOf 1 2) hintGame =
      (fst (grantHint (drawOf 1 2) hintGame), snd (grantHint (drawOf 1 2) hintGame))"
    by simp
  have s: "solution hintGame ! 4 ! 4 = 9" and z: "grid hintGame ! 0 ! 0 = 0"
    by code_simp+
  from grantHint_frame [OF hintGame_facts(1) p] grantHint_hintGame
  have "grid (snd (grantHint (drawOf 1 2) hintGame)) ! 4 ! 4 = solution hintGame ! 4 ! 4"
    and "\<forall>r<9. \<forall>c<9. r \<noteq> 4 \<or> c \<noteq> 4 \<longrightarrow>
      grid (snd (grantHint (drawOf 1 2) hintGame)) ! r ! c = grid hintGame ! r ! c"
    by simp_all
  then show ?thesis
    using s z by simp
qed

section \<open>The invariant of the carving loop\<close>

lemma decimal_small: "n < 10 \<Longrightarrow> decimal n = [char_of (48 + n)]"
  by simp

lemma digit_inj: "a < 10 \<Longrightarrow> b < 10 \<Longrightarrow> char_of (48 + a :: nat) = char_of (48 + b :: nat) \<longleftrightarrow> a = b"
  by (simp add: char_of_eq_iff take_bit_nat_eq_self)

lemma keyOf_inj:
  "r < 10 \<Longrightarrow> c < 10 \<Longrightarrow> r' < 10 \<Longrightarrow> c' < 10 \<Longrightarrow> keyOf r c = keyOf r' c' \<longleftrightarrow> r = r' \<and> c = c'"
  by (simp add: keyOf_def digit_inj del: decimal.simps add: decimal_small)

lemma coordAt_bounds: "fst (coordAt random pos k) < 9 \<and> snd (coordAt random pos k) < 9"
  by (simp add: coordAt_def randInt_less)

lemma key_inj_on: "inj_on (\<lambda>(r, c). keyOf r c) (coordAt random pos ` A)"
proof (rule inj_onI)
  fix x y
  assume "x \<in> coordAt random pos ` A" "y \<in> coordAt random pos ` A"
    and e: "(case x of (r, c) \<Rightarrow> keyOf r c) = (case y of (r, c) \<Rightarrow> keyOf r c)"
  then obtain i j where x: "x = coordAt random pos i" and y: "y = coordAt random pos j"
    by blast
  obtain r c where xr: "x = (r, c)" by (cases x)
  obtain r' c' where yr: "y = (r', c')" by (cases y)
  have "r < 9 \<and> c < 9"
    using coordAt_bounds [of random pos i] x xr by (metis fst_conv snd_conv)
  moreover have "r' < 9 \<and> c' < 9"
    using coordAt_bounds [of random pos j] y yr by (metis fst_conv snd_conv)
  ultimately have "r < 10" "c < 10" "r' < 10" "c' < 10"
    by simp_all
  with e xr yr show "x = y"
    by (simp add: keyOf_inj)
qed

lemma carveInv_card:
  assumes "carveInv random pos0 sol k fg cr rem"
  shows "rem = card (coordAt random pos0 ` {..<k})"
proof -
  from assms have d: "distinct cr" and l: "rem = length cr"
    and s: "set cr = (\<lambda>(r, c). keyOf r c) ` coordAt random pos0 ` {..<k}"
    by (simp_all add: carveInv_def)
  have "rem = card (set cr)"
    using d l by (simp add: distinct_card)
  also have "\<dots> = card ((\<lambda>(r, c). keyOf r c) ` coordAt random pos0 ` {..<k})"
    by (simp only: s)
  also have "\<dots> = card (coordAt random pos0 ` {..<k})"
    by (rule card_image) (rule key_inj_on)
  finally show ?thesis .
qed

lemma wfGrid_setCell: "wfGrid g \<Longrightarrow> wfGrid (setCell g row col v)"
proof (cases "row < length g")
  case True
  assume "wfGrid g"
  with True show ?thesis
    by (auto simp: wfGrid_def setCell_def list_all_length nth_list_update)
next
  case False
  assume "wfGrid g"
  with False show ?thesis
    by (simp add: setCell_def list_update_beyond)
qed

lemma complete_nonzero: "complete sol \<Longrightarrow> r < 9 \<Longrightarrow> c < 9 \<Longrightarrow> sol ! r ! c \<noteq> 0"
  by (auto simp: complete_def hasZero_iff)

lemma carveInv_init: "complete sol \<Longrightarrow> carveInv random pos0 sol 0 sol [] 0"
  by (simp add: carveInv_def complete_def)

lemma carveInv_step:
  assumes c: "complete sol" and i: "carveInv random pos0 sol k fg cr rem"
    and rc: "row = randInt (random (pos0 + 2 * k)) 9" "col = randInt (random (pos0 + 2 * k + 1)) 9"
  shows "if fg ! row ! col \<noteq> 0 \<and> keyOf row col \<notin> set cr
         then carveInv random pos0 sol (Suc k) (setCell fg row col 0) (cr @ [keyOf row col]) (rem + 1)
         else carveInv random pos0 sol (Suc k) fg cr rem"
proof -
  have b: "row < 9" "col < 9"
    using rc by (simp_all add: randInt_less)
  have co: "coordAt random pos0 k = (row, col)"
    using rc by (simp add: coordAt_def)
  have img: "(\<lambda>(r, c). keyOf r c) ` coordAt random pos0 ` {..<Suc k} = insert (keyOf row col) (set cr)"
    using i co by (simp add: carveInv_def lessThan_Suc)
  from i have wf: "wfGrid fg" and l: "rem = length cr" and d: "distinct cr"
    and cellsv: "\<forall>r<9. \<forall>c<9. fg ! r ! c = (if keyOf r c \<in> set cr then 0 else sol ! r ! c)"
    by (simp_all add: carveInv_def)
  have cellv: "fg ! row ! col = (if keyOf row col \<in> set cr then 0 else sol ! row ! col)"
    using cellsv b by simp
  show ?thesis
  proof (cases "fg ! row ! col \<noteq> 0 \<and> keyOf row col \<notin> set cr")
    case True
    have upd: "\<forall>r<9. \<forall>c<9. setCell fg row col 0 ! r ! c =
        (if keyOf r c \<in> set (cr @ [keyOf row col]) then 0 else sol ! r ! c)"
    proof (intro allI impI)
      fix r c :: nat
      assume rb: "r < 9" "c < 9"
      have "keyOf r c = keyOf row col \<longleftrightarrow> r = row \<and> c = col"
        using rb b by (simp add: keyOf_inj)
      moreover have "fg ! r ! c = (if keyOf r c \<in> set cr then 0 else sol ! r ! c)"
        using cellsv rb by simp
      ultimately show "setCell fg row col 0 ! r ! c =
        (if keyOf r c \<in> set (cr @ [keyOf row col]) then 0 else sol ! r ! c)"
        using rb by (auto simp: nth_setCell [OF wf])
    qed
    have s': "set (cr @ [keyOf row col]) =
        (\<lambda>(r, c). keyOf r c) ` coordAt random pos0 ` {..<Suc k}"
      using img by simp
    have "carveInv random pos0 sol (Suc k) (setCell fg row col 0) (cr @ [keyOf row col]) (rem + 1)"
      unfolding carveInv_def
    proof (intro conjI)
      show "wfGrid (setCell fg row col 0)" using wf by (rule wfGrid_setCell)
      show "rem + 1 = length (cr @ [keyOf row col])" using l by simp
      show "distinct (cr @ [keyOf row col])" using d True by simp
      show "set (cr @ [keyOf row col]) =
        (\<lambda>(r, c). keyOf r c) ` coordAt random pos0 ` {..<Suc k}" by (rule s')
      show "\<forall>r<9. \<forall>c<9. setCell fg row col 0 ! r ! c =
        (if keyOf r c \<in> set (cr @ [keyOf row col]) then 0 else sol ! r ! c)" by (rule upd)
    qed
    with True show ?thesis by simp
  next
    case False
    then have "keyOf row col \<in> set cr"
      using cellv complete_nonzero [OF c b] by (auto split: if_splits)
    then have s': "set cr = (\<lambda>(r, c). keyOf r c) ` coordAt random pos0 ` {..<Suc k}"
      using img by auto
    have "carveInv random pos0 sol (Suc k) fg cr rem"
      unfolding carveInv_def using wf l d s' cellsv by (intro conjI)
    with False show ?thesis by auto
  qed
qed

lemma carveLoop_done:
  "\<not> rem < n \<Longrightarrow> carveLoop random n pos fg cr rem = Some (pos, fg, cr, rem)"
  by (subst carveLoop.simps) simp

lemma carveLoop_accept:
  assumes "rem < n" "fg ! randInt (random pos) 9 ! randInt (random (pos + 1)) 9 \<noteq> 0"
    "keyOf (randInt (random pos) 9) (randInt (random (pos + 1)) 9) \<notin> set cr"
  shows "carveLoop random n pos fg cr rem =
         carveLoop random n (pos + 2)
           (setCell fg (randInt (random pos) 9) (randInt (random (pos + 1)) 9) 0)
           (cr @ [keyOf (randInt (random pos) 9) (randInt (random (pos + 1)) 9)]) (rem + 1)"
  by (subst carveLoop.simps) (simp only: assms Let_def if_True simp_thms)

lemma carveLoop_reject:
  assumes "rem < n"
    "\<not> (fg ! randInt (random pos) 9 ! randInt (random (pos + 1)) 9 \<noteq> 0 \<and>
        keyOf (randInt (random pos) 9) (randInt (random (pos + 1)) 9) \<notin> set cr)"
  shows "carveLoop random n pos fg cr rem = carveLoop random n (pos + 2) fg cr rem"
  by (subst carveLoop.simps) (simp only: assms Let_def if_True if_False simp_thms)

lemma carveLoop_post:
  assumes c: "complete sol" and r: "carveLoop random n pos fg cr rem = Some res"
  shows "\<forall>k. pos = pos0 + 2 * k \<longrightarrow> carveInv random pos0 sol k fg cr rem \<longrightarrow> rem \<le> n \<longrightarrow>
         (\<exists>k' fg' cr'. k \<le> k' \<and> res = (pos0 + 2 * k', fg', cr', n) \<and>
            carveInv random pos0 sol k' fg' cr' n)"
proof (rule carveLoop.raw_induct [where P = "\<lambda>random n pos fg cr rem res.
         \<forall>k. pos = pos0 + 2 * k \<longrightarrow> carveInv random pos0 sol k fg cr rem \<longrightarrow> rem \<le> n \<longrightarrow>
         (\<exists>k' fg' cr'. k \<le> k' \<and> res = (pos0 + 2 * k', fg', cr', n) \<and>
            carveInv random pos0 sol k' fg' cr' n)", OF _ r], goal_cases)
  case (1 loop random n pos fg cr rem res)
  let ?row = "randInt (random pos) 9"
  let ?col = "randInt (random (pos + 1)) 9"
  let ?key = "keyOf ?row ?col"
  show ?case
  proof (intro allI impI)
    fix k
    assume pk: "pos = pos0 + 2 * k" and i: "carveInv random pos0 sol k fg cr rem" and le: "rem \<le> n"
    show "\<exists>k' fg' cr'. k \<le> k' \<and> res = (pos0 + 2 * k', fg', cr', n) \<and>
            carveInv random pos0 sol k' fg' cr' n"
    proof (cases "rem < n")
      case False
      with 1(2) le have "res = (pos, fg, cr, rem)" "rem = n"
        by simp_all
      with pk i show ?thesis
        by (intro exI [of _ k] exI [of _ fg] exI [of _ cr]) simp
    next
      case True
      have rc: "?row = randInt (random (pos0 + 2 * k)) 9"
        "?col = randInt (random (pos0 + 2 * k + 1)) 9"
        using pk by simp_all
      note step = carveInv_step [OF c i rc]
      have p: "pos + 2 = pos0 + 2 * Suc k"
        using pk by simp
      have "\<exists>k' fg' cr'. Suc k \<le> k' \<and> res = (pos0 + 2 * k', fg', cr', n) \<and>
            carveInv random pos0 sol k' fg' cr' n"
      proof (cases "fg ! ?row ! ?col \<noteq> 0 \<and> ?key \<notin> set cr")
        case t: True
        have call: "loop random n (pos + 2) (setCell fg ?row ?col 0) (cr @ [?key]) (rem + 1) = Some res"
          using 1(2) True t by (simp only: Let_def if_True simp_thms)
        from step t have inv:
          "carveInv random pos0 sol (Suc k) (setCell fg ?row ?col 0) (cr @ [?key]) (rem + 1)"
          by (simp only: if_True simp_thms)
        from 1(1) [OF call, rule_format, OF p inv] True show ?thesis
          by simp
      next
        case f: False
        have call: "loop random n (pos + 2) fg cr rem = Some res"
          using 1(2) True f by (simp only: Let_def if_True if_False simp_thms)
        from step f have inv: "carveInv random pos0 sol (Suc k) fg cr rem"
          by (simp only: if_False simp_thms)
        from 1(1) [OF call, rule_format, OF p inv] True show ?thesis
          by simp
      qed
      then obtain k' fg' cr' where "Suc k \<le> k'" "res = (pos0 + 2 * k', fg', cr', n)"
        "carveInv random pos0 sol k' fg' cr' n"
        by blast
      then show ?thesis
        by (intro exI [of _ k'] exI [of _ fg'] exI [of _ cr']) simp
    qed
  qed
qed

lemma carveLoop_total:
  assumes c: "complete sol" and cov: "n \<le> card (coordAt random pos0 ` {..<N})"
  shows "carveInv random pos0 sol k fg cr rem \<Longrightarrow>
         \<exists>res. carveLoop random n (pos0 + 2 * k) fg cr rem = Some res"
proof (induction "N - k" arbitrary: k fg cr rem rule: less_induct)
  case less
  let ?pos = "pos0 + 2 * k"
  let ?row = "randInt (random ?pos) 9"
  let ?col = "randInt (random (?pos + 1)) 9"
  let ?key = "keyOf ?row ?col"
  show ?case
  proof (cases "rem < n")
    case False
    then have "carveLoop random n ?pos fg cr rem = Some (?pos, fg, cr, rem)"
      by (rule carveLoop_done)
    then show ?thesis ..
  next
    case True
    have "rem = card (coordAt random pos0 ` {..<k})"
      using less.prems by (rule carveInv_card)
    with True cov have lt: "card (coordAt random pos0 ` {..<k}) < card (coordAt random pos0 ` {..<N})"
      by simp
    have "k < N"
    proof (rule ccontr)
      assume "\<not> k < N"
      then have "{..<N} \<subseteq> {..<k}"
        by simp
      then have "coordAt random pos0 ` {..<N} \<subseteq> coordAt random pos0 ` {..<k}"
        by (rule image_mono)
      then have "card (coordAt random pos0 ` {..<N}) \<le> card (coordAt random pos0 ` {..<k})"
        by (intro card_mono) simp_all
      with lt show False by simp
    qed
    then have m: "N - Suc k < N - k" by simp
    have rc: "?row = randInt (random (pos0 + 2 * k)) 9" "?col = randInt (random (pos0 + 2 * k + 1)) 9"
      by (rule refl)+
    note step = carveInv_step [OF c less.prems rc]
    have p: "?pos + 2 = pos0 + 2 * Suc k" by simp
    show ?thesis
    proof (cases "fg ! ?row ! ?col \<noteq> 0 \<and> ?key \<notin> set cr")
      case t: True
      with step have inv: "carveInv random pos0 sol (Suc k) (setCell fg ?row ?col 0) (cr @ [?key]) (rem + 1)"
        by (simp only: if_True simp_thms)
      from less.hyps [OF m inv] obtain res where
        r: "carveLoop random n (pos0 + 2 * Suc k) (setCell fg ?row ?col 0) (cr @ [?key]) (rem + 1) = Some res"
        by blast
      from t have "carveLoop random n ?pos fg cr rem =
        carveLoop random n (?pos + 2) (setCell fg ?row ?col 0) (cr @ [?key]) (rem + 1)"
        by (intro carveLoop_accept True) simp_all
      with r have "carveLoop random n ?pos fg cr rem = Some res"
        by (simp only: p)
      then show ?thesis ..
    next
      case f: False
      with step have inv: "carveInv random pos0 sol (Suc k) fg cr rem"
        by (simp only: if_False simp_thms)
      from less.hyps [OF m inv] obtain res where
        r: "carveLoop random n (pos0 + 2 * Suc k) fg cr rem = Some res"
        by blast
      from f have "carveLoop random n ?pos fg cr rem = carveLoop random n (?pos + 2) fg cr rem"
        by (intro carveLoop_reject True)
      with r have "carveLoop random n ?pos fg cr rem = Some res"
        by (simp only: p)
      then show ?thesis ..
    qed
  qed
qed

lemma carve_post:
  assumes c: "complete sol" and r: "carve random pos sol d = Some (pos', g, cr, n)"
  shows "\<exists>k. pos' = pos + 2 * k \<and> n = cellsToRemoveOf d \<and> carveInv random pos sol k g cr n"
proof -
  from r have l: "carveLoop random (cellsToRemoveOf d) pos sol [] 0 = Some (pos', g, cr, n)"
    by (simp add: carve_def)
  have "pos = pos + 2 * 0" by simp
  from carveLoop_post [OF c l, rule_format, OF this carveInv_init [OF c]]
  show ?thesis by auto
qed

lemma carve_returns_iff:
  assumes c: "complete sol"
  shows "(\<exists>res. carve random pos sol d = Some res) \<longleftrightarrow>
         (\<exists>N. cellsToRemoveOf d \<le> card (coordAt random pos ` {..<N}))"
proof
  assume "\<exists>res. carve random pos sol d = Some res"
  then obtain pos' g cr n where r: "carve random pos sol d = Some (pos', g, cr, n)"
    by (metis prod_cases4)
  from carve_post [OF c r] obtain k where "n = cellsToRemoveOf d" "carveInv random pos sol k g cr n"
    by blast
  then have "cellsToRemoveOf d = card (coordAt random pos ` {..<k})"
    using carveInv_card by blast
  then show "\<exists>N. cellsToRemoveOf d \<le> card (coordAt random pos ` {..<N})"
    by (intro exI [of _ k]) simp
next
  assume "\<exists>N. cellsToRemoveOf d \<le> card (coordAt random pos ` {..<N})"
  then obtain N where cov: "cellsToRemoveOf d \<le> card (coordAt random pos ` {..<N})" ..
  from carveLoop_total [OF c cov carveInv_init [OF c]]
  show "\<exists>res. carve random pos sol d = Some res"
    by (simp add: carve_def)
qed

lemma carveInv_keys:
  assumes "carveInv random pos0 sol k g cr n" "key \<in> set cr"
  shows "\<exists>r<9. \<exists>c<9. key = keyOf r c"
proof -
  from assms have "key \<in> (\<lambda>(r, c). keyOf r c) ` coordAt random pos0 ` {..<k}"
    by (simp add: carveInv_def)
  then obtain i where "key = (\<lambda>(r, c). keyOf r c) (coordAt random pos0 i)"
    by blast
  then have "key = keyOf (fst (coordAt random pos0 i)) (snd (coordAt random pos0 i))"
    by (simp add: case_prod_beta)
  with coordAt_bounds [of random pos0 i] show ?thesis by blast
qed

lemma carveInv_zero_count:
  assumes c: "complete sol" and i: "carveInv random pos0 sol k g cr n"
  shows "length (emptyCells g) = n"
proof -
  let ?Z = "{(r, c). r < 9 \<and> c < 9 \<and> keyOf r c \<in> set cr}"
  from i have cellsv: "\<forall>r<9. \<forall>c<9. g ! r ! c = (if keyOf r c \<in> set cr then 0 else sol ! r ! c)"
    and d: "distinct cr" and l: "n = length cr"
    by (simp_all add: carveInv_def)
  have "distinct cells"
    by code_simp
  then have "distinct (emptyCells g)"
    by (simp add: emptyCells_def)
  then have "length (emptyCells g) = card (set (emptyCells g))"
    by (simp add: distinct_card)
  also have "set (emptyCells g) = ?Z"
  proof -
    have "g ! r ! c = 0 \<longleftrightarrow> keyOf r c \<in> set cr" if "r < 9" "c < 9" for r c
      using cellsv complete_nonzero [OF c that] that by simp
    then show ?thesis
      unfolding set_emptyCells by auto
  qed
  also have "card ?Z = card ((\<lambda>(r, c). keyOf r c) ` ?Z)"
  proof (rule card_image [symmetric])
    show "inj_on (\<lambda>(r, c). keyOf r c) ?Z"
      by (rule inj_onI) (auto simp: keyOf_inj)
  qed
  also have "(\<lambda>(r, c). keyOf r c) ` ?Z = set cr"
  proof
    show "(\<lambda>(r, c). keyOf r c) ` ?Z \<subseteq> set cr"
      by auto
    show "set cr \<subseteq> (\<lambda>(r, c). keyOf r c) ` ?Z"
    proof
      fix key assume k: "key \<in> set cr"
      from carveInv_keys [OF i k] obtain r c where "r < 9" "c < 9" "key = keyOf r c"
        by blast
      with k have "(r, c) \<in> ?Z" by simp
      then show "key \<in> (\<lambda>(r, c). keyOf r c) ` ?Z"
        using \<open>key = keyOf r c\<close> by (metis (mono_tags, lifting) image_eqI old.prod.case)
    qed
  qed
  also have "card (set cr) = n"
    using d l by (simp add: distinct_card)
  finally show ?thesis .
qed

lemma carveInv_props:
  assumes c: "complete sol" and i: "carveInv random pos0 sol k g cr n"
  shows "length cr = n \<and> distinct cr \<and>
         (\<forall>key\<in>set cr. \<exists>r<9. \<exists>c<9. key = keyOf r c \<and> sol ! r ! c \<noteq> 0) \<and>
         wfGrid g \<and>
         (\<forall>r<9. \<forall>c<9. (g ! r ! c \<noteq> 0 \<longrightarrow> g ! r ! c = sol ! r ! c) \<and>
                        (g ! r ! c = 0 \<longleftrightarrow> keyOf r c \<in> set cr)) \<and>
         length (emptyCells g) = n"
proof -
  from i have cellsv: "\<forall>r<9. \<forall>c<9. g ! r ! c = (if keyOf r c \<in> set cr then 0 else sol ! r ! c)"
    and d: "distinct cr" and l: "n = length cr" and wf: "wfGrid g"
    by (simp_all add: carveInv_def)
  have k: "\<forall>key\<in>set cr. \<exists>r<9. \<exists>c<9. key = keyOf r c \<and> sol ! r ! c \<noteq> 0"
  proof
    fix key assume "key \<in> set cr"
    from carveInv_keys [OF i this] obtain r c where "r < 9" "c < 9" "key = keyOf r c"
      by blast
    with complete_nonzero [OF c, of r c] show "\<exists>r<9. \<exists>c<9. key = keyOf r c \<and> sol ! r ! c \<noteq> 0"
      by blast
  qed
  have g: "\<forall>r<9. \<forall>c<9. (g ! r ! c \<noteq> 0 \<longrightarrow> g ! r ! c = sol ! r ! c) \<and>
                        (g ! r ! c = 0 \<longleftrightarrow> keyOf r c \<in> set cr)"
  proof (intro allI impI)
    fix r c :: nat
    assume b: "r < 9" "c < 9"
    then show "(g ! r ! c \<noteq> 0 \<longrightarrow> g ! r ! c = sol ! r ! c) \<and>
                        (g ! r ! c = 0 \<longleftrightarrow> keyOf r c \<in> set cr)"
      using cellsv complete_nonzero [OF c b] by simp
  qed
  from l have l': "length cr = n" by simp
  note z = carveInv_zero_count [OF c i]
  from g z have "(\<forall>r<9. \<forall>c<9. (g ! r ! c \<noteq> 0 \<longrightarrow> g ! r ! c = sol ! r ! c) \<and>
                        (g ! r ! c = 0 \<longleftrightarrow> keyOf r c \<in> set cr)) \<and>
         length (emptyCells g) = n" ..
  with wf have "wfGrid g \<and>
         (\<forall>r<9. \<forall>c<9. (g ! r ! c \<noteq> 0 \<longrightarrow> g ! r ! c = sol ! r ! c) \<and>
                        (g ! r ! c = 0 \<longleftrightarrow> keyOf r c \<in> set cr)) \<and>
         length (emptyCells g) = n" ..
  with k have "(\<forall>key\<in>set cr. \<exists>r<9. \<exists>c<9. key = keyOf r c \<and> sol ! r ! c \<noteq> 0) \<and>
         wfGrid g \<and>
         (\<forall>r<9. \<forall>c<9. (g ! r ! c \<noteq> 0 \<longrightarrow> g ! r ! c = sol ! r ! c) \<and>
                        (g ! r ! c = 0 \<longleftrightarrow> keyOf r c \<in> set cr)) \<and>
         length (emptyCells g) = n" ..
  with d have "distinct cr \<and>
         (\<forall>key\<in>set cr. \<exists>r<9. \<exists>c<9. key = keyOf r c \<and> sol ! r ! c \<noteq> 0) \<and>
         wfGrid g \<and>
         (\<forall>r<9. \<forall>c<9. (g ! r ! c \<noteq> 0 \<longrightarrow> g ! r ! c = sol ! r ! c) \<and>
                        (g ! r ! c = 0 \<longleftrightarrow> keyOf r c \<in> set cr)) \<and>
         length (emptyCells g) = n" ..
  with l' show ?thesis ..
qed

section \<open>What carving guarantees\<close>

lemma complete_exampleSolution: "complete exampleSolution"
  using wf_exampleSolution noZero_exampleSolution by (simp add: complete_def)

lemma coordAt_seqStream: "coordAt seqStream 0 k = ((k div 9) mod 9, k mod 9)"
  by (simp add: coordAt_def seqStream_def randInt_drawOf)

lemma seqStream_covers:
  assumes "N \<le> 81"
  shows "card (coordAt seqStream 0 ` {..<N}) = N"
proof -
  have "inj_on (coordAt seqStream 0) {..<N}"
  proof (rule inj_onI)
    fix x y
    assume "x \<in> {..<N}" "y \<in> {..<N}" and e: "coordAt seqStream 0 x = coordAt seqStream 0 y"
    with assms have b: "x < 81" "y < 81" by simp_all
    from e have "(x div 9) mod 9 = (y div 9) mod 9" "x mod 9 = y mod 9"
      by (simp_all add: coordAt_seqStream)
    moreover from b have "x div 9 < 9" "y div 9 < 9" by simp_all
    ultimately have "x div 9 = y div 9" "x mod 9 = y mod 9" by simp_all
    then show "x = y"
      by (metis div_mult_mod_eq)
  qed
  then show ?thesis
    by (simp add: card_image)
qed

lemma coordAt_zeroStream: "coordAt zeroStream pos k = (0, 0)"
proof -
  have "Rep_draw (drawOf 0 1) = 0"
    by (simp add: Rep_drawOf)
  then show ?thesis
    by (simp add: coordAt_def zeroStream_def randInt_def)
qed

lemma zeroStream_stuck: "card (coordAt zeroStream pos ` {..<N}) \<le> 1"
proof -
  have "coordAt zeroStream pos ` {..<N} \<subseteq> {(0, 0)}"
    by (auto simp: coordAt_zeroStream)
  then have "card (coordAt zeroStream pos ` {..<N}) \<le> card {(0::nat, 0::nat)}"
    by (intro card_mono) simp_all
  then show ?thesis by simp
qed




section \<open>Properties of solution generation\<close>

lemma isValid_iff:
  assumes "row < 9" "col < 9"
  shows "isValid g row col num \<longleftrightarrow> (\<forall>r<9. \<forall>c<9. sameUnit row col r c \<longrightarrow> g ! r ! c \<noteq> num)"
proof -
  have rb: "\<And>r. r div 3 = row div 3 \<Longrightarrow> r < 9" using assms by arith
  have cb: "\<And>c. c div 3 = col div 3 \<Longrightarrow> c < 9" using assms by arith
  have "isValid g row col num \<longleftrightarrow>
      (\<forall>i<9. g ! row ! i \<noteq> num) \<and> (\<forall>i<9. g ! i ! col \<noteq> num) \<and>
      (\<forall>r c. r div 3 = row div 3 \<and> c div 3 = col div 3 \<longrightarrow> g ! r ! c \<noteq> num)"
    unfolding isValid_def Let_def list_ex_iff Bex_def box_range
    by auto
  also have "\<dots> \<longleftrightarrow> (\<forall>r<9. \<forall>c<9. sameUnit row col r c \<longrightarrow> g ! r ! c \<noteq> num)"
    unfolding sameUnit_def using assms rb cb by blast
  finally show ?thesis .
qed

lemma consistent_place:
  assumes g: "consistent g" and b: "row < 9" "col < 9" and v: "isValid g row col num" and n: "num \<le> 9"
  shows "consistent (setCell g row col num)"
proof -
  from g have wf: "wfGrid g" and le: "\<forall>r<9. \<forall>c<9. g ! r ! c \<le> 9"
    and nc: "\<forall>r<9. \<forall>c<9. \<forall>r'<9. \<forall>c'<9.
         (r \<noteq> r' \<or> c \<noteq> c') \<and> sameUnit r c r' c' \<and> g ! r ! c \<noteq> 0 \<longrightarrow> g ! r ! c \<noteq> g ! r' ! c'"
    by (simp_all add: consistent_def)
  from v have free: "\<forall>r<9. \<forall>c<9. sameUnit row col r c \<longrightarrow> g ! r ! c \<noteq> num"
    by (simp add: isValid_iff [OF b])
  let ?h = "setCell g row col num"
  have h: "?h ! r ! c = (if r = row \<and> c = col then num else g ! r ! c)" if "r < 9" "c < 9" for r c
    using that by (rule nth_setCell [OF wf])
  show ?thesis
    unfolding consistent_def
  proof (intro conjI allI impI)
    show "wfGrid ?h" using wf by (rule wfGrid_setCell)
  next
    fix r c :: nat assume "r < 9" "c < 9"
    then show "?h ! r ! c \<le> 9" using le n by (simp add: h)
  next
    fix r c r' c' :: nat
    assume rb: "r < 9" "c < 9" "r' < 9" "c' < 9"
      and a: "(r \<noteq> r' \<or> c \<noteq> c') \<and> sameUnit r c r' c' \<and> ?h ! r ! c \<noteq> 0"
    show "?h ! r ! c \<noteq> ?h ! r' ! c'"
    proof (cases "r = row \<and> c = col")
      case True
      with a rb have "sameUnit row col r' c'" "\<not> (r' = row \<and> c' = col)" by auto
      with free rb have "g ! r' ! c' \<noteq> num" by simp
      with True rb \<open>\<not> (r' = row \<and> c' = col)\<close> show ?thesis by (auto simp: h)
    next
      case False
      note nrc = this
      show ?thesis
      proof (cases "r' = row \<and> c' = col")
        case True
        with a have "sameUnit row col r c" by (auto intro: sameUnit_sym)
        with free rb have "g ! r ! c \<noteq> num" by simp
        with True nrc rb show ?thesis by (auto simp: h)
      next
        case False
        from a rb have "?h ! r ! c \<noteq> 0" by blast
        with nrc rb have "g ! r ! c \<noteq> 0" by (auto simp: h)
        with nc rb a have "g ! r ! c \<noteq> g ! r' ! c'" by blast
        with False nrc rb show ?thesis by (auto simp: h)
      qed
    qed
  qed
qed

lemma consistent_clear:
  assumes g: "consistent g"
  shows "consistent (setCell g row col 0)"
proof -
  from g have wf: "wfGrid g" and le: "\<forall>r<9. \<forall>c<9. g ! r ! c \<le> 9"
    and nc: "\<forall>r<9. \<forall>c<9. \<forall>r'<9. \<forall>c'<9.
         (r \<noteq> r' \<or> c \<noteq> c') \<and> sameUnit r c r' c' \<and> g ! r ! c \<noteq> 0 \<longrightarrow> g ! r ! c \<noteq> g ! r' ! c'"
    by (simp_all add: consistent_def)
  let ?h = "setCell g row col 0"
  have h: "?h ! r ! c = (if r = row \<and> c = col then 0 else g ! r ! c)" if "r < 9" "c < 9" for r c
    using that by (rule nth_setCell [OF wf])
  show ?thesis
    unfolding consistent_def
  proof (intro conjI allI impI)
    show "wfGrid ?h" using wf by (rule wfGrid_setCell)
  next
    fix r c :: nat assume "r < 9" "c < 9"
    then show "?h ! r ! c \<le> 9" using le by (simp add: h)
  next
    fix r c r' c' :: nat
    assume rb: "r < 9" "c < 9" "r' < 9" "c' < 9"
      and a: "(r \<noteq> r' \<or> c \<noteq> c') \<and> sameUnit r c r' c' \<and> ?h ! r ! c \<noteq> 0"
    then have nz: "\<not> (r = row \<and> c = col)" "g ! r ! c \<noteq> 0"
      by (auto simp: h split: if_splits)
    with nc rb a have "g ! r ! c \<noteq> g ! r' ! c'" by blast
    with nz rb show "?h ! r ! c \<noteq> ?h ! r' ! c'"
      by (auto simp: h)
  qed
qed

lemma consistent_emptyGrid: "consistent emptyGrid"
proof -
  have "emptyGrid ! r ! c = 0" if "r < 9" "c < 9" for r c
    using that by (simp add: emptyGrid_def)
  moreover have "wfGrid emptyGrid"
    by code_simp
  ultimately show ?thesis
    by (simp add: consistent_def)
qed

lemma consistent_full_solved:
  assumes "consistent g" "\<not> hasZero g"
  shows "solved g"
proof -
  from assms(1) have wf: "wfGrid g" and le: "\<forall>r<9. \<forall>c<9. g ! r ! c \<le> 9"
    and nc: "\<forall>r<9. \<forall>c<9. \<forall>r'<9. \<forall>c'<9.
         (r \<noteq> r' \<or> c \<noteq> c') \<and> sameUnit r c r' c' \<and> g ! r ! c \<noteq> 0 \<longrightarrow> g ! r ! c \<noteq> g ! r' ! c'"
    by (simp_all add: consistent_def)
  have "noClash g"
    unfolding noClash_def using nc assms(2) by (simp add: hasZero_iff)
  then have "isSolutionValid g"
    by (simp add: isSolutionValid_noClash)
  with assms(2) show ?thesis
    by (simp add: solved_iff [OF wf le])
qed

lemma find_empty_None: "find (\<lambda>(row, col). g ! row ! col = 0) cells = None \<longleftrightarrow> \<not> hasZero g"
  unfolding find_None_iff hasZero_def list_ex_iff by blast

lemma find_empty_Some:
  assumes "find (\<lambda>(row, col). g ! row ! col = 0) cells = Some (row, col)"
  shows "row < 9 \<and> col < 9 \<and> g ! row ! col = 0"
proof -
  from assms obtain i where "i < length cells" "cells ! i = (row, col)" "g ! row ! col = 0"
    unfolding find_Some_iff by auto
  then have "(row, col) \<in> set cells \<and> g ! row ! col = 0"
    by (metis nth_mem)
  then show ?thesis
    by (simp add: cells_set)
qed

lemma tryNumbers_sound:
  assumes IH: "\<And>pos g ok g' pos'. consistent g \<Longrightarrow>
      generateSolution depth srt random pos g = Some (ok, g', pos') \<Longrightarrow>
      consistent g' \<and> (ok \<longrightarrow> \<not> hasZero g')"
  shows "consistent g \<Longrightarrow> row < 9 \<Longrightarrow> col < 9 \<Longrightarrow> \<forall>n\<in>set nums. n \<le> 9 \<Longrightarrow>
         tryNumbers depth srt random row col nums pos g = Some (ok, g', pos') \<Longrightarrow>
         consistent g' \<and> (ok \<longrightarrow> \<not> hasZero g')"
proof (induction nums arbitrary: pos g)
  case Nil
  then show ?case by simp
next
  case (Cons num rest)
  have rest: "\<forall>n\<in>set rest. n \<le> 9" and num: "num \<le> 9"
    using Cons.prems(4) by simp_all
  show ?case
  proof (cases "isValid g row col num")
    case False
    with Cons.prems(5) have "tryNumbers depth srt random row col rest pos g = Some (ok, g', pos')"
      by simp
    from Cons.IH [OF Cons.prems(1,2,3) rest this] show ?thesis .
  next
    case True
    have c1: "consistent (setCell g row col num)"
      using Cons.prems(1,2,3) True num by (rule consistent_place)
    show ?thesis
    proof (cases "generateSolution depth srt random pos (setCell g row col num)")
      case None
      with True Cons.prems(5) show ?thesis by simp
    next
      case (Some res)
      obtain ok1 g1 pos1 where res: "res = (ok1, g1, pos1)"
        by (cases res)
      from IH [OF c1 Some [unfolded res]] have g1: "consistent g1" "ok1 \<longrightarrow> \<not> hasZero g1"
        by simp_all
      show ?thesis
      proof (cases ok1)
        case True
        with \<open>isValid g row col num\<close> Some res Cons.prems(5) have "ok = True" "g' = g1"
          by simp_all
        with g1 True show ?thesis by simp
      next
        case False
        with \<open>isValid g row col num\<close> Some res Cons.prems(5)
        have "tryNumbers depth srt random row col rest pos1 (setCell g1 row col 0) = Some (ok, g', pos')"
          by simp
        from Cons.IH [OF consistent_clear [OF g1(1)] Cons.prems(2,3) rest this] show ?thesis .
      qed
    qed
  qed
qed

lemma permuting_numbers:
  assumes "permuting srt" "srt random pos [1..<10] = (numbers, pos')"
  shows "\<forall>n\<in>set numbers. n \<le> 9"
proof -
  from assms have "mset numbers = mset [1..<10]"
    unfolding permuting_def by (metis fst_conv)
  then have "set numbers = set [1..<10]"
    by (rule mset_eq_setD)
  then show ?thesis by auto
qed

lemma generateSolution_sound:
  assumes p: "permuting srt"
  shows "consistent g \<Longrightarrow> generateSolution depth srt random pos g = Some (ok, g', pos') \<Longrightarrow>
         consistent g' \<and> (ok \<longrightarrow> \<not> hasZero g')"
proof (induction depth arbitrary: pos g ok g' pos')
  case 0
  then show ?case by simp
next
  case (Suc depth)
  show ?case
  proof (cases "find (\<lambda>(row, col). g ! row ! col = 0) cells")
    case None
    with Suc.prems(2) have "ok = True" "g' = g" by simp_all
    with None Suc.prems(1) show ?thesis by (simp add: find_empty_None)
  next
    case (Some rc)
    obtain row col where rc: "rc = (row, col)" by (cases rc)
    from find_empty_Some [OF Some [unfolded rc]] have b: "row < 9" "col < 9" by simp_all
    obtain numbers pos1 where s: "srt random pos [1..<10] = (numbers, pos1)"
      by (cases "srt random pos [1..<10]")
    from Suc.prems(2) Some rc s
    have t: "tryNumbers depth srt random row col numbers pos1 g = Some (ok, g', pos')"
      by simp
    from tryNumbers_sound [OF Suc.IH Suc.prems(1) b permuting_numbers [OF p s] t]
    show ?thesis by simp
  qed
qed

lemma setCell_restore:
  assumes "wfGrid g" "row < 9" "col < 9" "g ! row ! col = v"
  shows "setCell (setCell g row col num) row col v = g"
proof -
  have l: "row < length g"
    using assms(1,2) by (simp add: wfGrid_def)
  have "((g ! row)[col := num])[col := v] = (g ! row)[col := v]"
    by (rule list_update_overwrite)
  also have "\<dots> = (g ! row)[col := g ! row ! col]"
    by (simp only: assms(4))
  also have "\<dots> = g ! row"
    by (rule list_update_id)
  finally have "((g ! row)[col := num])[col := v] = g ! row" .
  with l show ?thesis
    by (simp add: setCell_def)
qed

lemma zeros_card: "length (emptyCells g) = card {(r, c). r < 9 \<and> c < 9 \<and> g ! r ! c = 0}"
proof -
  have "distinct cells"
    by code_simp
  then have "distinct (emptyCells g)"
    by (simp add: emptyCells_def)
  then have "length (emptyCells g) = card (set (emptyCells g))"
    by (simp add: distinct_card)
  then show ?thesis
    by (simp only: set_emptyCells)
qed

lemma zeros_place:
  assumes wf: "wfGrid g" and b: "row < 9" "col < 9" and z: "g ! row ! col = 0" and n: "num \<noteq> 0"
  shows "length (emptyCells (setCell g row col num)) < length (emptyCells g)"
proof -
  let ?P = "\<lambda>(r, c). setCell g row col num ! r ! c = 0"
  have e: "emptyCells (setCell g row col num) = filter ?P (emptyCells g)"
    unfolding emptyCells_def filter_filter
  proof (rule filter_cong [OF refl])
    fix x assume "x \<in> set cells"
    then obtain r c where x: "x = (r, c)" and xb: "r < 9" "c < 9"
      by (auto simp: cells_set)
    have "setCell g row col num ! r ! c = 0 \<longrightarrow> g ! r ! c = 0"
      using n z by (simp add: nth_setCell [OF wf xb])
    then show "(case x of (r, c) \<Rightarrow> setCell g row col num ! r ! c = 0) =
        ((case x of (row, col) \<Rightarrow> g ! row ! col = 0) \<and>
         (case x of (r, c) \<Rightarrow> setCell g row col num ! r ! c = 0))"
      unfolding x by auto
  qed
  have m: "(row, col) \<in> set (emptyCells g)"
    using b z by (simp add: set_emptyCells)
  have np: "\<not> ?P (row, col)"
    using n by (simp add: nth_setCell [OF wf b])
  from m np have "length (filter ?P (emptyCells g)) < length (emptyCells g)"
    by (rule length_filter_less [where P = "?P" and x = "(row, col)"])
  then show ?thesis
    by (simp only: e)
qed

lemma isValid_nonzero:
  assumes "row < 9" "col < 9" "g ! row ! col = 0" "isValid g row col num"
  shows "num \<noteq> 0"
proof -
  have s: "sameUnit row col row col" by (simp add: sameUnit_def)
  from assms(4) have "\<forall>r<9. \<forall>c<9. sameUnit row col r c \<longrightarrow> g ! r ! c \<noteq> num"
    by (simp only: isValid_iff [OF assms(1,2)])
  with assms(1,2) s have "g ! row ! col \<noteq> num" by blast
  with assms(3) show ?thesis by simp
qed


lemma tryNumbers_restore:
  assumes IH: "\<And>pos g g' pos'. wfGrid g \<Longrightarrow>
      generateSolution depth srt random pos g = Some (False, g', pos') \<Longrightarrow> g' = g"
    and wf: "wfGrid g" and b: "row < 9" "col < 9" and z: "g ! row ! col = 0"
  shows "tryNumbers depth srt random row col nums pos g = Some (False, g', pos') \<Longrightarrow> g' = g"
proof (induction nums arbitrary: pos)
  case Nil
  then show ?case by simp
next
  case (Cons num rest)
  show ?case
  proof (cases "isValid g row col num")
    case False
    with Cons.prems have "tryNumbers depth srt random row col rest pos g = Some (False, g', pos')"
      by simp
    then show ?thesis by (rule Cons.IH)
  next
    case True
    show ?thesis
    proof (cases "generateSolution depth srt random pos (setCell g row col num)")
      case None
      with True Cons.prems show ?thesis by simp
    next
      case (Some res)
      obtain ok1 g1 pos1 where res: "res = (ok1, g1, pos1)"
        by (cases res)
      show ?thesis
      proof (cases ok1)
        case True
        with \<open>isValid g row col num\<close> Some res Cons.prems show ?thesis by simp
      next
        case False
        then have ok1: "ok1 = False" by simp
        from IH [OF wfGrid_setCell [OF wf] Some [unfolded res ok1]]
        have "g1 = setCell g row col num" .
        then have "setCell g1 row col 0 = g"
          using setCell_restore [OF wf b z] by simp
        with \<open>isValid g row col num\<close> Some res False Cons.prems
        have "tryNumbers depth srt random row col rest pos1 g = Some (False, g', pos')"
          by simp
        then show ?thesis by (rule Cons.IH)
      qed
    qed
  qed
qed

lemma generateSolution_restore:
  "wfGrid g \<Longrightarrow> generateSolution depth srt random pos g = Some (False, g', pos') \<Longrightarrow> g' = g"
proof (induction depth arbitrary: pos g g' pos')
  case 0
  then show ?case by simp
next
  case (Suc depth)
  show ?case
  proof (cases "find (\<lambda>(row, col). g ! row ! col = 0) cells")
    case None
    with Suc.prems(2) show ?thesis by simp
  next
    case (Some rc)
    obtain row col where rc: "rc = (row, col)" by (cases rc)
    from find_empty_Some [OF Some [unfolded rc]]
    have b: "row < 9" "col < 9" and z: "g ! row ! col = 0" by simp_all
    obtain numbers pos1 where s: "srt random pos [1..<10] = (numbers, pos1)"
      by (cases "srt random pos [1..<10]")
    from Suc.prems(2) Some rc s
    have t: "tryNumbers depth srt random row col numbers pos1 g = Some (False, g', pos')"
      by simp
    from tryNumbers_restore [OF Suc.IH Suc.prems(1) b z t] show ?thesis .
  qed
qed

lemma tryNumbers_returns:
  assumes IH: "\<And>pos g. wfGrid g \<Longrightarrow> length (emptyCells g) < depth \<Longrightarrow>
      \<exists>res. generateSolution depth srt random pos g = Some res"
    and wf: "wfGrid g" and b: "row < 9" "col < 9" and z: "g ! row ! col = 0"
    and d: "length (emptyCells g) \<le> depth"
  shows "\<exists>res. tryNumbers depth srt random row col nums pos g = Some res"
proof (induction nums arbitrary: pos)
  case Nil
  have "tryNumbers depth srt random row col [] pos g = Some (False, g, pos)"
    by simp
  then show ?case ..
next
  case (Cons num rest)
  show ?case
  proof (cases "isValid g row col num")
    case False
    then have "tryNumbers depth srt random row col (num # rest) pos g =
          tryNumbers depth srt random row col rest pos g"
      by simp
    with Cons.IH [of pos] show ?thesis by simp
  next
    case True
    have "length (emptyCells (setCell g row col num)) < depth"
      using zeros_place [OF wf b z isValid_nonzero [OF b z True]] d by simp
    from IH [OF wfGrid_setCell [OF wf] this]
    obtain res where r: "generateSolution depth srt random pos (setCell g row col num) = Some res"
      by blast
    obtain ok1 g1 pos1 where res: "res = (ok1, g1, pos1)"
      by (cases res)
    show ?thesis
    proof (cases ok1)
      case t: True
      with True r res have "tryNumbers depth srt random row col (num # rest) pos g =
          Some (True, g1, pos1)"
        by simp
      then show ?thesis ..
    next
      case False
      then have ok1: "ok1 = False" by simp
      from generateSolution_restore [OF wfGrid_setCell [OF wf] r [unfolded res ok1]]
      have "g1 = setCell g row col num" .
      then have "setCell g1 row col 0 = g"
        using setCell_restore [OF wf b z] by simp
      with True r res ok1 have "tryNumbers depth srt random row col (num # rest) pos g =
          tryNumbers depth srt random row col rest pos1 g"
        by simp
      with Cons.IH [of pos1] show ?thesis by simp
    qed
  qed
qed

lemma generateSolution_returns:
  "wfGrid g \<Longrightarrow> length (emptyCells g) < depth \<Longrightarrow>
   \<exists>res. generateSolution depth srt random pos g = Some res"
proof (induction depth arbitrary: pos g)
  case 0
  then show ?case by simp
next
  case (Suc depth)
  show ?case
  proof (cases "find (\<lambda>(row, col). g ! row ! col = 0) cells")
    case None
    then have "generateSolution (Suc depth) srt random pos g = Some (True, g, pos)"
      by simp
    then show ?thesis ..
  next
    case (Some rc)
    obtain row col where rc: "rc = (row, col)" by (cases rc)
    from find_empty_Some [OF Some [unfolded rc]]
    have b: "row < 9" "col < 9" and z: "g ! row ! col = 0" by simp_all
    obtain numbers pos1 where s: "srt random pos [1..<10] = (numbers, pos1)"
      by (cases "srt random pos [1..<10]")
    from Suc.prems(2) have d: "length (emptyCells g) \<le> depth" by simp
    from Some rc s have "generateSolution (Suc depth) srt random pos g =
        tryNumbers depth srt random row col numbers pos1 g"
      by simp
    with tryNumbers_returns [OF Suc.IH Suc.prems(1) b z d, of numbers pos1]
    show ?thesis by simp
  qed
qed

lemma valid_of_solution:
  assumes s: "consistent s" "\<not> hasZero s" and a: "agrees s g"
    and b: "row < 9" "col < 9" and z: "g ! row ! col = 0"
  shows "isValid g row col (s ! row ! col)"
  unfolding isValid_iff [OF b]
proof (intro allI impI)
  fix r c :: nat
  assume rb: "r < 9" "c < 9" and u: "sameUnit row col r c"
  from s(2) b have nz: "s ! row ! col \<noteq> 0"
    by (simp add: hasZero_iff)
  show "g ! r ! c \<noteq> s ! row ! col"
  proof (cases "g ! r ! c = 0")
    case True
    with nz show ?thesis by simp
  next
    case False
    with a rb have e: "g ! r ! c = s ! r ! c"
      by (simp add: agrees_def)
    from False z have ne: "row \<noteq> r \<or> col \<noteq> c" by auto
    from s(1) have "\<forall>r<9. \<forall>c<9. \<forall>r'<9. \<forall>c'<9.
         (r \<noteq> r' \<or> c \<noteq> c') \<and> sameUnit r c r' c' \<and> s ! r ! c \<noteq> 0 \<longrightarrow> s ! r ! c \<noteq> s ! r' ! c'"
      by (simp add: consistent_def)
    with b rb ne u nz have "s ! row ! col \<noteq> s ! r ! c" by blast
    with e show ?thesis by simp
  qed
qed

lemma agrees_place:
  assumes "agrees s g" "wfGrid g" "row < 9" "col < 9"
  shows "agrees s (setCell g row col (s ! row ! col))"
  using assms(1) unfolding agrees_def by (auto simp: nth_setCell [OF assms(2)])

lemma tryNumbers_complete:
  assumes IH: "\<And>pos g ok g' pos'. wfGrid g \<Longrightarrow> agrees s g \<Longrightarrow>
      generateSolution depth srt random pos g = Some (ok, g', pos') \<Longrightarrow> ok"
    and s: "consistent s" "\<not> hasZero s" and wf: "wfGrid g" and a: "agrees s g"
    and b: "row < 9" "col < 9" and z: "g ! row ! col = 0"
  shows "s ! row ! col \<in> set nums \<Longrightarrow>
         tryNumbers depth srt random row col nums pos g = Some (ok, g', pos') \<Longrightarrow> ok"
proof (induction nums arbitrary: pos)
  case Nil
  then show ?case by simp
next
  case (Cons num rest)
  show ?case
  proof (cases "isValid g row col num")
    case False
    with valid_of_solution [OF s a b z] have "num \<noteq> s ! row ! col" by auto
    with Cons.prems(1) have m: "s ! row ! col \<in> set rest" by simp
    from False Cons.prems(2)
    have "tryNumbers depth srt random row col rest pos g = Some (ok, g', pos')"
      by simp
    from Cons.IH [OF m this] show ?thesis .
  next
    case True
    show ?thesis
    proof (cases "generateSolution depth srt random pos (setCell g row col num)")
      case None
      with True Cons.prems(2) show ?thesis by simp
    next
      case (Some res)
      obtain ok1 g1 pos1 where res: "res = (ok1, g1, pos1)"
        by (cases res)
      show ?thesis
      proof (cases ok1)
        case t: True
        with True Some res Cons.prems(2) show ?thesis by simp
      next
        case False
        then have ok1: "ok1 = False" by simp
        have "num \<noteq> s ! row ! col"
        proof
          assume "num = s ! row ! col"
          with agrees_place [OF a wf b] have "agrees s (setCell g row col num)" by simp
          from IH [OF wfGrid_setCell [OF wf] this Some [unfolded res]] False
          show False by simp
        qed
        with Cons.prems(1) have m: "s ! row ! col \<in> set rest" by simp
        from generateSolution_restore [OF wfGrid_setCell [OF wf] Some [unfolded res ok1]]
        have "g1 = setCell g row col num" .
        then have "setCell g1 row col 0 = g"
          using setCell_restore [OF wf b z] by simp
        with True Some res ok1 Cons.prems(2)
        have "tryNumbers depth srt random row col rest pos1 g = Some (ok, g', pos')"
          by simp
        from Cons.IH [OF m this] show ?thesis .
      qed
    qed
  qed
qed

lemma generateSolution_complete:
  assumes p: "permuting srt" and s: "consistent s" "\<not> hasZero s"
  shows "wfGrid g \<Longrightarrow> agrees s g \<Longrightarrow>
         generateSolution depth srt random pos g = Some (ok, g', pos') \<Longrightarrow> ok"
proof (induction depth arbitrary: pos g ok g' pos')
  case 0
  then show ?case by simp
next
  case (Suc depth)
  show ?case
  proof (cases "find (\<lambda>(row, col). g ! row ! col = 0) cells")
    case None
    with Suc.prems(3) show ?thesis by simp
  next
    case (Some rc)
    obtain row col where rc: "rc = (row, col)" by (cases rc)
    from find_empty_Some [OF Some [unfolded rc]]
    have b: "row < 9" "col < 9" and z: "g ! row ! col = 0" by simp_all
    obtain numbers pos1 where n: "srt random pos [1..<10] = (numbers, pos1)"
      by (cases "srt random pos [1..<10]")
    from p n have "mset numbers = mset [1..<10]"
      unfolding permuting_def by (metis fst_conv)
    then have sn: "set numbers = set [1..<10]"
      by (rule mset_eq_setD)
    from s(2) b have "s ! row ! col \<noteq> 0" by (simp add: hasZero_iff)
    moreover from s(1) b have "s ! row ! col \<le> 9" by (simp add: consistent_def)
    ultimately have m: "s ! row ! col \<in> set numbers"
      unfolding sn by simp
    from Suc.prems(3) Some rc n
    have t: "tryNumbers depth srt random row col numbers pos1 g = Some (ok, g', pos')"
      by simp
    from tryNumbers_complete [OF Suc.IH s Suc.prems(1,2) b z m t] show ?thesis .
  qed
qed

lemma consistent_exampleSolution: "consistent exampleSolution"
proof -
  have "noClash exampleSolution"
    using valid_exampleSolution by (simp add: isSolutionValid_noClash)
  then have "\<forall>r<9. \<forall>c<9. \<forall>r'<9. \<forall>c'<9.
         (r \<noteq> r' \<or> c \<noteq> c') \<and> sameUnit r c r' c' \<and> exampleSolution ! r ! c \<noteq> 0 \<longrightarrow>
         exampleSolution ! r ! c \<noteq> exampleSolution ! r' ! c'"
    unfolding noClash_def by blast
  with wf_exampleSolution range_exampleSolution show ?thesis
    unfolding consistent_def by blast
qed

lemma generateSolution_succeeds:
  assumes "permuting srt"
  shows "\<exists>g pos'. generateSolution 82 srt random pos emptyGrid = Some (True, g, pos')"
proof -
  have wf: "wfGrid emptyGrid" and z: "length (emptyCells emptyGrid) < 82"
    by code_simp+
  have a: "agrees exampleSolution emptyGrid"
    by (simp add: agrees_def emptyGrid_def)
  from generateSolution_returns [OF wf z]
  obtain res where r: "generateSolution 82 srt random pos emptyGrid = Some res"
    by blast
  obtain ok g pos' where res: "res = (ok, g, pos')"
    by (cases res)
  from generateSolution_complete [OF assms consistent_exampleSolution noZero_exampleSolution wf a
      r [unfolded res]]
  have ok by simp
  with r res show ?thesis by simp
qed

lemma mset_rotate1: "mset (rotate1 xs) = mset xs"
  by (cases xs) simp_all

lemma mset_rotate: "mset (rotate n xs) = mset xs"
  by (induction n) (simp_all add: mset_rotate1)

lemma permuting_rotSorter: "permuting rotSorter"
  by (simp add: permuting_def rotSorter_def mset_rotate)

lemma rotSorter_run:
  "generateSolution 82 rotSorter zeroStream 0 emptyGrid = Some (True, exampleSolution, 81)"
  by code_simp

text \<open>
  C1. Whatever order the engine's sort gives the nine candidates, as long as it is a
  permutation of them: on the all-zeros grid \<open>generateSolution\<close> returns success within
  a recursion depth of 82, and every grid it returns with success has no empty cell and
  has a permutation of 1..9 in every row, every column and every box.
\<close>

theorem generateSolution_spec:
  assumes "permuting srt"
  shows "(\<exists>g pos'. generateSolution 82 srt random pos emptyGrid = Some (True, g, pos')) \<and>
         (\<forall>depth g pos'. generateSolution depth srt random pos emptyGrid = Some (True, g, pos') \<longrightarrow>
            solved g)"
proof (intro conjI allI impI)
  show "\<exists>g pos'. generateSolution 82 srt random pos emptyGrid = Some (True, g, pos')"
    using assms by (rule generateSolution_succeeds)
next
  fix depth g pos'
  assume "generateSolution depth srt random pos emptyGrid = Some (True, g, pos')"
  from generateSolution_sound [OF assms consistent_emptyGrid this]
  have "consistent g" "\<not> hasZero g" by simp_all
  then show "solved g" by (rule consistent_full_solved)
qed

theorem generateSolution_spec_witness:
  "generateSolution 82 rotSorter zeroStream 0 emptyGrid = Some (True, exampleSolution, 81) \<and>
   solved exampleSolution"
  using generateSolution_spec [OF permuting_rotSorter, of zeroStream 0] rotSorter_run
  by blast

section \<open>The whole of generatePuzzle\<close>

lemma solved_complete: "solved g \<Longrightarrow> complete g"
  by (simp add: solved_def complete_def)

lemma coordAt_lateStream: "coordAt lateStream 81 k = coordAt seqStream 0 k"
proof -
  have a: "(162 + 2 * k) div 2 = 81 + k" "(163 + 2 * k) div 2 = 81 + k" by simp_all
  have e: "even (162 + 2 * k)" "\<not> even (163 + 2 * k)" by simp_all
  have "seqStream (162 + 2 * k) = drawOf ((81 + k) div 9) 9"
    unfolding seqStream_def using a(1) e(1) by (simp add: add.commute)
  moreover have "seqStream (163 + 2 * k) = drawOf ((81 + k) mod 9) 9"
    unfolding seqStream_def using a(2) e(2) by (simp add: add.commute)
  moreover have "81 + 2 * k + 81 = 162 + 2 * k" "81 + 2 * k + 1 + 81 = 163 + 2 * k" by simp_all
  ultimately have "coordAt lateStream 81 k = (((81 + k) div 9) mod 9, ((81 + k) mod 9) mod 9)"
    by (simp add: coordAt_def lateStream_def randInt_drawOf)
  also have "\<dots> = ((k div 9) mod 9, k mod 9)"
    by (simp add: div_add1_eq) presburger
  finally show ?thesis
    by (simp add: coordAt_seqStream)
qed

lemma lateStream_covers: "N \<le> 81 \<Longrightarrow> card (coordAt lateStream 81 ` {..<N}) = N"
proof -
  assume n: "N \<le> 81"
  have "coordAt lateStream 81 = coordAt seqStream 0"
    by (rule ext) (rule coordAt_lateStream)
  with seqStream_covers [OF n] show ?thesis by simp
qed

lemma carve_zeroStream_diverges:
  assumes "complete sol" "1 < cellsToRemoveOf d"
  shows "carve zeroStream pos sol d = None"
proof -
  have "\<not> (\<exists>N. cellsToRemoveOf d \<le> card (coordAt zeroStream pos ` {..<N}))"
  proof
    assume "\<exists>N. cellsToRemoveOf d \<le> card (coordAt zeroStream pos ` {..<N})"
    then obtain N where "cellsToRemoveOf d \<le> card (coordAt zeroStream pos ` {..<N})" ..
    with zeroStream_stuck [of pos N] assms(2) show False
      by simp
  qed
  then have "\<not> (\<exists>res. carve zeroStream pos sol d = Some res)"
    by (simp only: carve_returns_iff [OF assms(1)] simp_thms)
  then show ?thesis
    by (cases "carve zeroStream pos sol d") blast+
qed

lemma rotSorter_run_late:
  "generateSolution 82 rotSorter lateStream 0 emptyGrid = Some (True, exampleSolution, 81)"
  by code_simp

text \<open>
  The two stages together: whenever \<open>generatePuzzle\<close> returns, the stored solution is
  a solved grid, the player grid and the original grid are the same carved grid, whose
  empty cells are exactly \<open>cellsToRemove\<close> cleared cells and which agrees with the
  solution elsewhere.
\<close>

lemma generatePuzzle_stored:
  assumes p: "permuting srt" and r: "generatePuzzle depth srt random pos gm = Some (gm', pos')"
  shows "solved (solution gm') \<and> grid gm' = originalGrid gm' \<and>
         (\<exists>cr. length cr = cellsToRemoveOf (difficulty gm) \<and> distinct cr \<and>
            (\<forall>r<9. \<forall>c<9.
               (originalGrid gm' ! r ! c \<noteq> 0 \<longrightarrow>
                  originalGrid gm' ! r ! c = solution gm' ! r ! c) \<and>
               (originalGrid gm' ! r ! c = 0 \<longleftrightarrow> keyOf r c \<in> set cr))) \<and>
         length (emptyCells (originalGrid gm')) = cellsToRemoveOf (difficulty gm)"
proof -
  from r obtain ok sol pos1 where
    g: "generateSolution depth srt random pos emptyGrid = Some (ok, sol, pos1)"
    unfolding generatePuzzle_def by (auto split: option.splits)
  have wf: "wfGrid emptyGrid"
    by code_simp
  have a: "agrees exampleSolution emptyGrid"
    by (simp add: agrees_def emptyGrid_def)
  from generateSolution_complete [OF p consistent_exampleSolution noZero_exampleSolution wf a g]
  have ok .
  with g have g': "generateSolution depth srt random pos emptyGrid = Some (True, sol, pos1)"
    by simp
  from generateSolution_sound [OF p consistent_emptyGrid g']
  have sv: "solved sol"
    by (simp add: consistent_full_solved)
  then have c: "complete sol"
    by (rule solved_complete)
  from r g obtain pos2 fullGrid cellsRemoved removed where
    cv: "carve random pos1 sol (difficulty gm) = Some (pos2, fullGrid, cellsRemoved, removed)"
    and gm': "gm' = gm\<lparr>solution := sol, grid := fullGrid, originalGrid := fullGrid\<rparr>"
    unfolding generatePuzzle_def by (auto split: option.splits)
  from carve_post [OF c cv] obtain k where n: "removed = cellsToRemoveOf (difficulty gm)"
    and i: "carveInv random pos1 sol k fullGrid cellsRemoved removed"
    by blast
  note pr = carveInv_props [OF c i]
  from pr n have z: "length (emptyCells fullGrid) = cellsToRemoveOf (difficulty gm)"
    and l: "length cellsRemoved = cellsToRemoveOf (difficulty gm)" and d: "distinct cellsRemoved"
    by simp_all
  from pr have q: "\<forall>r<9. \<forall>c<9. (fullGrid ! r ! c \<noteq> 0 \<longrightarrow> fullGrid ! r ! c = sol ! r ! c) \<and>
      (fullGrid ! r ! c = 0 \<longleftrightarrow> keyOf r c \<in> set cellsRemoved)"
    by blast
  from l d q have "\<exists>cr. length cr = cellsToRemoveOf (difficulty gm) \<and> distinct cr \<and>
      (\<forall>r<9. \<forall>c<9. (fullGrid ! r ! c \<noteq> 0 \<longrightarrow> fullGrid ! r ! c = sol ! r ! c) \<and>
      (fullGrid ! r ! c = 0 \<longleftrightarrow> keyOf r c \<in> set cr))"
    by (intro exI [of _ cellsRemoved] conjI l d q)
  with sv z show ?thesis
    by (simp add: gm')
qed

text \<open>
  C2, amended. On a complete solution grid and for each of the three difficulties: the
  carving ends whenever the coordinates drawn include at least 40, 50 or 60 different
  cells, and whenever it ends it has cleared exactly that many cells. The keys in
  \<open>cellsRemoved\<close> are that many, pairwise different, and each names a cell of the grid
  that is non-zero in the solution (a cell is cleared once only, so it held that value
  when it was cleared); in the carved grid every non-zero cell equals the solution's
  cell, the zero cells are exactly the cleared ones, and there are exactly that many.
  The same holds of the original grid \<open>generatePuzzle\<close> stores, against the solution
  it generated.
\<close>

theorem carve_spec:
  assumes "complete sol" "d \<in> {''easy'', ''medium'', ''hard''}"
  shows "(cellsToRemoveOf d \<le> card (coordAt random pos ` {..<N}) \<longrightarrow>
           (\<exists>res. carve random pos sol d = Some res)) \<and>
         (\<forall>pos' g cr n. carve random pos sol d = Some (pos', g, cr, n) \<longrightarrow>
            n = (if d = ''easy'' then 40 else if d = ''medium'' then 50 else 60) \<and>
            length cr = n \<and> distinct cr \<and>
            (\<forall>key\<in>set cr. \<exists>r<9. \<exists>c<9. key = keyOf r c \<and> sol ! r ! c \<noteq> 0) \<and>
            wfGrid g \<and>
            (\<forall>r<9. \<forall>c<9. (g ! r ! c \<noteq> 0 \<longrightarrow> g ! r ! c = sol ! r ! c) \<and>
                           (g ! r ! c = 0 \<longleftrightarrow> keyOf r c \<in> set cr)) \<and>
            length (emptyCells g) = n) \<and>
         (\<forall>depth srt p0 gm gm' p'.
            permuting srt \<and> difficulty gm = d \<and>
            generatePuzzle depth srt random p0 gm = Some (gm', p') \<longrightarrow>
            solved (solution gm') \<and> grid gm' = originalGrid gm' \<and>
            (\<exists>cr. length cr = cellsToRemoveOf d \<and> distinct cr \<and>
               (\<forall>r<9. \<forall>c<9.
                  (originalGrid gm' ! r ! c \<noteq> 0 \<longrightarrow>
                     originalGrid gm' ! r ! c = solution gm' ! r ! c) \<and>
                  (originalGrid gm' ! r ! c = 0 \<longleftrightarrow> keyOf r c \<in> set cr))) \<and>
            length (emptyCells (originalGrid gm')) = cellsToRemoveOf d)"
proof -
  have a: "cellsToRemoveOf d \<le> card (coordAt random pos ` {..<N}) \<longrightarrow>
           (\<exists>res. carve random pos sol d = Some res)"
  proof
    assume "cellsToRemoveOf d \<le> card (coordAt random pos ` {..<N})"
    then have "\<exists>N. cellsToRemoveOf d \<le> card (coordAt random pos ` {..<N})" ..
    then show "\<exists>res. carve random pos sol d = Some res"
      by (simp only: carve_returns_iff [OF assms(1)])
  qed
  have b: "\<forall>pos' g cr n. carve random pos sol d = Some (pos', g, cr, n) \<longrightarrow>
            n = (if d = ''easy'' then 40 else if d = ''medium'' then 50 else 60) \<and>
            length cr = n \<and> distinct cr \<and>
            (\<forall>key\<in>set cr. \<exists>r<9. \<exists>c<9. key = keyOf r c \<and> sol ! r ! c \<noteq> 0) \<and>
            wfGrid g \<and>
            (\<forall>r<9. \<forall>c<9. (g ! r ! c \<noteq> 0 \<longrightarrow> g ! r ! c = sol ! r ! c) \<and>
                           (g ! r ! c = 0 \<longleftrightarrow> keyOf r c \<in> set cr)) \<and>
            length (emptyCells g) = n"
  proof (intro allI impI)
    fix pos' g cr n
    assume r: "carve random pos sol d = Some (pos', g, cr, n)"
    from carve_post [OF assms(1) r] obtain k where n: "n = cellsToRemoveOf d"
      and i: "carveInv random pos sol k g cr n"
      by blast
    from n have e: "n = (if d = ''easy'' then 40 else if d = ''medium'' then 50 else 60)"
      by (simp only: cellsToRemoveOf_def)
    from e carveInv_props [OF assms(1) i]
    show "n = (if d = ''easy'' then 40 else if d = ''medium'' then 50 else 60) \<and>
            length cr = n \<and> distinct cr \<and>
            (\<forall>key\<in>set cr. \<exists>r<9. \<exists>c<9. key = keyOf r c \<and> sol ! r ! c \<noteq> 0) \<and>
            wfGrid g \<and>
            (\<forall>r<9. \<forall>c<9. (g ! r ! c \<noteq> 0 \<longrightarrow> g ! r ! c = sol ! r ! c) \<and>
                           (g ! r ! c = 0 \<longleftrightarrow> keyOf r c \<in> set cr)) \<and>
            length (emptyCells g) = n" ..
  qed
  have c: "\<forall>depth srt p0 gm gm' p'.
            permuting srt \<and> difficulty gm = d \<and>
            generatePuzzle depth srt random p0 gm = Some (gm', p') \<longrightarrow>
            solved (solution gm') \<and> grid gm' = originalGrid gm' \<and>
            (\<exists>cr. length cr = cellsToRemoveOf d \<and> distinct cr \<and>
               (\<forall>r<9. \<forall>c<9.
                  (originalGrid gm' ! r ! c \<noteq> 0 \<longrightarrow>
                     originalGrid gm' ! r ! c = solution gm' ! r ! c) \<and>
                  (originalGrid gm' ! r ! c = 0 \<longleftrightarrow> keyOf r c \<in> set cr))) \<and>
            length (emptyCells (originalGrid gm')) = cellsToRemoveOf d"
  proof (intro allI impI)
    fix depth srt p0 gm gm' p'
    assume a: "permuting srt \<and> difficulty gm = d \<and>
            generatePuzzle depth srt random p0 gm = Some (gm', p')"
    then have p: "permuting srt" and dd: "difficulty gm = d"
      and r: "generatePuzzle depth srt random p0 gm = Some (gm', p')"
      by simp_all
    from generatePuzzle_stored [OF p r]
    show "solved (solution gm') \<and> grid gm' = originalGrid gm' \<and>
            (\<exists>cr. length cr = cellsToRemoveOf d \<and> distinct cr \<and>
               (\<forall>r<9. \<forall>c<9.
                  (originalGrid gm' ! r ! c \<noteq> 0 \<longrightarrow>
                     originalGrid gm' ! r ! c = solution gm' ! r ! c) \<and>
                  (originalGrid gm' ! r ! c = 0 \<longleftrightarrow> keyOf r c \<in> set cr))) \<and>
            length (emptyCells (originalGrid gm')) = cellsToRemoveOf d"
      by (simp only: dd)
  qed
  from b c have "(\<forall>pos' g cr n. carve random pos sol d = Some (pos', g, cr, n) \<longrightarrow>
            n = (if d = ''easy'' then 40 else if d = ''medium'' then 50 else 60) \<and>
            length cr = n \<and> distinct cr \<and>
            (\<forall>key\<in>set cr. \<exists>r<9. \<exists>c<9. key = keyOf r c \<and> sol ! r ! c \<noteq> 0) \<and>
            wfGrid g \<and>
            (\<forall>r<9. \<forall>c<9. (g ! r ! c \<noteq> 0 \<longrightarrow> g ! r ! c = sol ! r ! c) \<and>
                           (g ! r ! c = 0 \<longleftrightarrow> keyOf r c \<in> set cr)) \<and>
            length (emptyCells g) = n) \<and>
         (\<forall>depth srt p0 gm gm' p'.
            permuting srt \<and> difficulty gm = d \<and>
            generatePuzzle depth srt random p0 gm = Some (gm', p') \<longrightarrow>
            solved (solution gm') \<and> grid gm' = originalGrid gm' \<and>
            (\<exists>cr. length cr = cellsToRemoveOf d \<and> distinct cr \<and>
               (\<forall>r<9. \<forall>c<9.
                  (originalGrid gm' ! r ! c \<noteq> 0 \<longrightarrow>
                     originalGrid gm' ! r ! c = solution gm' ! r ! c) \<and>
                  (originalGrid gm' ! r ! c = 0 \<longleftrightarrow> keyOf r c \<in> set cr))) \<and>
            length (emptyCells (originalGrid gm')) = cellsToRemoveOf d)" ..
  with a show ?thesis ..
qed

text \<open>
  C2, as stated, fails: on the source that always returns 0, a complete solution and
  \<open>medium\<close>, the carving clears the cell (0, 0) and then runs forever, so no grid with
  50 cleared cells is ever produced.
\<close>

theorem carve_unfinished_counterexample:
  "complete exampleSolution \<and> carve zeroStream 0 exampleSolution ''medium'' = None"
proof -
  have "1 < cellsToRemoveOf ''medium''"
    by (simp add: cellsToRemoveOf_def)
  with complete_exampleSolution have "carve zeroStream 0 exampleSolution ''medium'' = None"
    by (rule carve_zeroStream_diverges)
  with complete_exampleSolution show ?thesis ..
qed

theorem carve_spec_witness:
  "(\<exists>pos' g cr. carve seqStream 0 exampleSolution ''easy'' = Some (pos', g, cr, 40) \<and>
      length cr = 40 \<and> distinct cr \<and> length (emptyCells g) = 40) \<and>
   (\<exists>gm' p'. generatePuzzle 82 rotSorter lateStream 0 solvedGame = Some (gm', p') \<and>
      solved (solution gm') \<and> grid gm' = originalGrid gm' \<and>
      length (emptyCells (originalGrid gm')) = 40)"
proof -
  have d: "''easy'' \<in> {''easy'', ''medium'', ''hard''}"
    by simp
  have n: "cellsToRemoveOf ''easy'' = 40"
    by (simp add: cellsToRemoveOf_def)
  note t = carve_spec [OF complete_exampleSolution d]
  have "cellsToRemoveOf ''easy'' \<le> card (coordAt seqStream 0 ` {..<40})"
    by (simp add: seqStream_covers n)
  with t [of seqStream 0 40] obtain res where "carve seqStream 0 exampleSolution ''easy'' = Some res"
    by blast
  then obtain pos' g cr m where r: "carve seqStream 0 exampleSolution ''easy'' = Some (pos', g, cr, m)"
    by (metis prod_cases4)
  with t [of seqStream 0 40] have "m = 40" "length cr = m" "distinct cr" "length (emptyCells g) = m"
    by simp_all
  with r have a: "\<exists>pos' g cr. carve seqStream 0 exampleSolution ''easy'' = Some (pos', g, cr, 40) \<and>
      length cr = 40 \<and> distinct cr \<and> length (emptyCells g) = 40"
    by (intro exI [of _ pos'] exI [of _ g] exI [of _ cr]) simp
  have "cellsToRemoveOf ''easy'' \<le> card (coordAt lateStream 81 ` {..<40})"
    by (simp add: lateStream_covers n)
  with t [of lateStream 81 40] obtain res2 where
    c2: "carve lateStream 81 exampleSolution ''easy'' = Some res2"
    by blast
  obtain pos2 g2 cr2 m2 where res2: "res2 = (pos2, g2, cr2, m2)"
    by (cases res2)
  have df: "difficulty solvedGame = ''easy''"
    by (simp add: solvedGame_def)
  have gp: "generatePuzzle 82 rotSorter lateStream 0 solvedGame =
      Some (solvedGame\<lparr>solution := exampleSolution, grid := g2, originalGrid := g2\<rparr>, pos2)"
    by (simp add: generatePuzzle_def rotSorter_run_late df c2 res2)
  from t [of lateStream 0 40, THEN conjunct2, THEN conjunct2, rule_format,
      of rotSorter solvedGame 82 0, OF conjI [OF permuting_rotSorter conjI [OF df gp]]] n
  have "solved (solution (solvedGame\<lparr>solution := exampleSolution, grid := g2, originalGrid := g2\<rparr>))"
    "length (emptyCells (originalGrid
       (solvedGame\<lparr>solution := exampleSolution, grid := g2, originalGrid := g2\<rparr>))) = 40"
    by simp_all
  with gp have b: "\<exists>gm' p'. generatePuzzle 82 rotSorter lateStream 0 solvedGame = Some (gm', p') \<and>
      solved (solution gm') \<and> grid gm' = originalGrid gm' \<and>
      length (emptyCells (originalGrid gm')) = 40"
    by (intro exI [of _ "solvedGame\<lparr>solution := exampleSolution, grid := g2, originalGrid := g2\<rparr>"]
        exI [of _ pos2]) simp
  from a b show ?thesis ..
qed

section \<open>Unrecognised difficulties\<close>

text \<open>
  C10, amended. A difficulty other than \<open>easy\<close> and \<open>medium\<close>, whatever the string,
  takes the last branch of the conditional: 60 cells are to be removed, and the carving
  and the whole of \<open>generatePuzzle\<close> do what they do for \<open>hard\<close> (the difficulty
  field apart). On a complete solution the carving ends exactly when the coordinates
  drawn include at least 60 different cells, and whenever it ends exactly 60 cells are
  cleared. The string is never inspected further: the source has no \<open>throw\<close> on this
  path, so the only outcomes are a result and running forever.
\<close>

theorem unknown_difficulty_is_hard:
  assumes "d \<noteq> ''easy''" "d \<noteq> ''medium''"
  shows "cellsToRemoveOf d = 60 \<and>
         carve random pos sol d = carve random pos sol ''hard'' \<and>
         generatePuzzle depth srt random pos (gm\<lparr>difficulty := d\<rparr>) =
           map_option (\<lambda>(gm', p). (gm'\<lparr>difficulty := d\<rparr>, p))
             (generatePuzzle depth srt random pos (gm\<lparr>difficulty := ''hard''\<rparr>)) \<and>
         (complete sol \<longrightarrow>
           ((\<exists>res. carve random pos sol d = Some res) \<longleftrightarrow>
              (\<exists>N. 60 \<le> card (coordAt random pos ` {..<N}))) \<and>
           (\<forall>pos' g cr n. carve random pos sol d = Some (pos', g, cr, n) \<longrightarrow>
              n = 60 \<and> length cr = 60 \<and> distinct cr \<and> length (emptyCells g) = 60))"
proof -
  have a: "cellsToRemoveOf d = 60"
    using assms by (simp add: cellsToRemoveOf_def)
  have b: "carve random pos sol d = carve random pos sol ''hard''" for random pos sol
    using a by (simp add: carve_def cellsToRemoveOf_def)
  have g: "generatePuzzle depth srt random pos (gm\<lparr>difficulty := d\<rparr>) =
           map_option (\<lambda>(gm', p). (gm'\<lparr>difficulty := d\<rparr>, p))
             (generatePuzzle depth srt random pos (gm\<lparr>difficulty := ''hard''\<rparr>))"
    unfolding generatePuzzle_def by (simp add: b split: option.splits)
  have c: "((\<exists>res. carve random pos sol d = Some res) \<longleftrightarrow>
              (\<exists>N. 60 \<le> card (coordAt random pos ` {..<N}))) \<and>
           (\<forall>pos' g cr n. carve random pos sol d = Some (pos', g, cr, n) \<longrightarrow>
              n = 60 \<and> length cr = 60 \<and> distinct cr \<and> length (emptyCells g) = 60)"
    if cs: "complete sol"
  proof
    show "(\<exists>res. carve random pos sol d = Some res) \<longleftrightarrow>
              (\<exists>N. 60 \<le> card (coordAt random pos ` {..<N}))"
      using carve_returns_iff [OF cs, of random pos d] by (simp only: a)
    show "\<forall>pos' g cr n. carve random pos sol d = Some (pos', g, cr, n) \<longrightarrow>
              n = 60 \<and> length cr = 60 \<and> distinct cr \<and> length (emptyCells g) = 60"
    proof (intro allI impI)
      fix pos' g cr n
      assume r: "carve random pos sol d = Some (pos', g, cr, n)"
      from carve_post [OF cs r] obtain k where n: "n = cellsToRemoveOf d"
        and i: "carveInv random pos sol k g cr n"
        by blast
      from carveInv_props [OF cs i] n a
      show "n = 60 \<and> length cr = 60 \<and> distinct cr \<and> length (emptyCells g) = 60"
        by simp
    qed
  qed
  from c have "complete sol \<longrightarrow>
           ((\<exists>res. carve random pos sol d = Some res) \<longleftrightarrow>
              (\<exists>N. 60 \<le> card (coordAt random pos ` {..<N}))) \<and>
           (\<forall>pos' g cr n. carve random pos sol d = Some (pos', g, cr, n) \<longrightarrow>
              n = 60 \<and> length cr = 60 \<and> distinct cr \<and> length (emptyCells g) = 60)" ..
  with g have "generatePuzzle depth srt random pos (gm\<lparr>difficulty := d\<rparr>) =
           map_option (\<lambda>(gm', p). (gm'\<lparr>difficulty := d\<rparr>, p))
             (generatePuzzle depth srt random pos (gm\<lparr>difficulty := ''hard''\<rparr>)) \<and>
         (complete sol \<longrightarrow>
           ((\<exists>res. carve random pos sol d = Some res) \<longleftrightarrow>
              (\<exists>N. 60 \<le> card (coordAt random pos ` {..<N}))) \<and>
           (\<forall>pos' g cr n. carve random pos sol d = Some (pos', g, cr, n) \<longrightarrow>
              n = 60 \<and> length cr = 60 \<and> distinct cr \<and> length (emptyCells g) = 60))" ..
  with b [of random pos sol] have "carve random pos sol d = carve random pos sol ''hard'' \<and>
         generatePuzzle depth srt random pos (gm\<lparr>difficulty := d\<rparr>) =
           map_option (\<lambda>(gm', p). (gm'\<lparr>difficulty := d\<rparr>, p))
             (generatePuzzle depth srt random pos (gm\<lparr>difficulty := ''hard''\<rparr>)) \<and>
         (complete sol \<longrightarrow>
           ((\<exists>res. carve random pos sol d = Some res) \<longleftrightarrow>
              (\<exists>N. 60 \<le> card (coordAt random pos ` {..<N}))) \<and>
           (\<forall>pos' g cr n. carve random pos sol d = Some (pos', g, cr, n) \<longrightarrow>
              n = 60 \<and> length cr = 60 \<and> distinct cr \<and> length (emptyCells g) = 60))" ..
  with a show ?thesis ..
qed

text \<open>
  C10, as stated, fails: with the unrecognised difficulty \<open>expert\<close> and the source that
  always returns 0 the carving never ends, so 60 cells are never removed.
\<close>

theorem unknown_difficulty_unfinished_counterexample:
  "''expert'' \<noteq> ''easy'' \<and> ''expert'' \<noteq> ''medium'' \<and> complete exampleSolution \<and>
   carve zeroStream 0 exampleSolution ''expert'' = None"
proof -
  have "1 < cellsToRemoveOf ''expert''"
    by (simp add: cellsToRemoveOf_def)
  with complete_exampleSolution have "carve zeroStream 0 exampleSolution ''expert'' = None"
    by (rule carve_zeroStream_diverges)
  with complete_exampleSolution show ?thesis
    by simp
qed

theorem unknown_difficulty_is_hard_witness:
  "cellsToRemoveOf ''expert'' = 60 \<and>
   carve seqStream 0 exampleSolution ''expert'' = carve seqStream 0 exampleSolution ''hard'' \<and>
   (\<exists>pos' g cr. carve seqStream 0 exampleSolution ''expert'' = Some (pos', g, cr, 60) \<and>
      length cr = 60 \<and> length (emptyCells g) = 60)"
proof -
  have d: "''expert'' \<noteq> ''easy''" "''expert'' \<noteq> ''medium''"
    by simp_all
  note t = unknown_difficulty_is_hard [OF d, of seqStream 0 exampleSolution]
  have "(60::nat) \<le> card (coordAt seqStream 0 ` {..<60})"
    by (simp add: seqStream_covers)
  then have "\<exists>N. (60::nat) \<le> card (coordAt seqStream 0 ` {..<N})" ..
  with t complete_exampleSolution
  obtain res where "carve seqStream 0 exampleSolution ''expert'' = Some res"
    by blast
  then obtain pos' g cr n where r: "carve seqStream 0 exampleSolution ''expert'' = Some (pos', g, cr, n)"
    by (metis prod_cases4)
  with t complete_exampleSolution have "n = 60" "length cr = 60" "length (emptyCells g) = 60"
    by blast+
  with r have "\<exists>pos' g cr. carve seqStream 0 exampleSolution ''expert'' = Some (pos', g, cr, 60) \<and>
      length cr = 60 \<and> length (emptyCells g) = 60"
    by (intro exI [of _ pos'] exI [of _ g] exI [of _ cr]) simp
  with t show ?thesis
    by blast
qed

end
